theory Spec2Isabelle
  imports Complex_Main "HOL-Library.DAList"
begin

section \<open>JavaScript objects\<close>

text \<open>
  The graph of \<^verbatim>\<open>src/index.js\<close> keeps its adjacency lists in the object
  \<^verbatim>\<open>edges\<close>, and its functions build further objects (\<^verbatim>\<open>nodeSet\<close>,
  \<^verbatim>\<open>visited\<close>, \<^verbatim>\<open>d\<close>, \<^verbatim>\<open>p\<close>, \<^verbatim>\<open>q\<close>).  Each of them is created by the literal
  \<^verbatim>\<open>{}\<close>: it has properties of its own, kept in insertion order, and it inherits the
  properties of \<^verbatim>\<open>Object.prototype\<close>.  Node identifiers are strings, the keys of these
  properties.
\<close>

type_synonym 'v obj = "(string, 'v) alist"

text \<open>
  The functions that \<^verbatim>\<open>Object.prototype\<close> holds, by their key, with the name and the
  number of parameters (the property \<^verbatim>\<open>length\<close>) of each.
\<close>

definition prototype_functions :: "(string \<times> string \<times> nat) list" where
  "prototype_functions =
     [(''constructor'', ''Object'', 1),
      (''__defineGetter__'', ''__defineGetter__'', 2),
      (''__defineSetter__'', ''__defineSetter__'', 2),
      (''hasOwnProperty'', ''hasOwnProperty'', 1),
      (''__lookupGetter__'', ''__lookupGetter__'', 1),
      (''__lookupSetter__'', ''__lookupSetter__'', 1),
      (''isPrototypeOf'', ''isPrototypeOf'', 1),
      (''propertyIsEnumerable'', ''propertyIsEnumerable'', 1),
      (''toString'', ''toString'', 0),
      (''valueOf'', ''valueOf'', 0),
      (''toLocaleString'', ''toLocaleString'', 0)]"

text \<open>
  What \<^verbatim>\<open>ob[k]\<close> reads: the property of \<^verbatim>\<open>ob\<close> itself when there is one; otherwise
  the function that \<^verbatim>\<open>Object.prototype\<close> holds under \<^verbatim>\<open>k\<close>, or for the key
  \<^verbatim>\<open>__proto__\<close> the object \<^verbatim>\<open>Object.prototype\<close>, which the inherited getter returns;
  otherwise \<^verbatim>\<open>undefined\<close>.
\<close>

datatype 'v property = Own 'v | Inherited string | Prototype | Undefined

definition get_property :: "'v obj \<Rightarrow> string \<Rightarrow> 'v property" where
  "get_property ob k =
     (case DAList.lookup ob k of
        Some v \<Rightarrow> Own v
      | None \<Rightarrow>
          (case map_of prototype_functions k of
             Some _ \<Rightarrow> Inherited k
           | None \<Rightarrow> if k = ''__proto__'' then Prototype else Undefined))"

text \<open>
  \<^verbatim>\<open>ob[k] = v\<close> sets the own property, new or not.  On an object without an own property
  \<^verbatim>\<open>__proto__\<close> the assignment to that key calls the inherited setter instead, which
  creates no property: it makes an object \<^verbatim>\<open>v\<close> the prototype and ignores every other
  \<^verbatim>\<open>v\<close> but \<^verbatim>\<open>null\<close>.  The program assigns under a key \<^verbatim>\<open>__proto__\<close> only
  \<^verbatim>\<open>true\<close>, and in \<^verbatim>\<open>addNode\<close> what it has just read there, which is the prototype
  the object already has; so this assignment changes nothing.
\<close>

definition set_property :: "string \<Rightarrow> 'v \<Rightarrow> 'v obj \<Rightarrow> 'v obj" where
  "set_property k v ob =
     (if k = ''__proto__'' \<and> DAList.lookup ob k = None then ob else DAList.update k v ob)"

text \<open>
  \<^verbatim>\<open>Object.keys\<close> lists the own keys: those that are array indices (canonical decimal
  numerals up to \<open>2\<^sup>3\<^sup>2 - 2\<close>) first, in ascending numeric order, and then all other keys in
  insertion order.
\<close>

definition is_digit :: "char \<Rightarrow> bool" where
  "is_digit c = (48 \<le> (of_char c :: nat) \<and> (of_char c :: nat) \<le> 57)"

definition decimal :: "string \<Rightarrow> nat" where
  "decimal s = foldl (\<lambda>a c. 10 * a + ((of_char c :: nat) - 48)) 0 s"

definition array_index :: "string \<Rightarrow> nat option" where
  "array_index s =
     (if s = [] then None
      else if \<not> list_all is_digit s then None
      else if 1 < length s \<and> hd s = CHR ''0'' then None
      else if 10 < length s then None
      else if 4294967294 < decimal s then None
      else Some (decimal s))"

definition index_order :: "string \<Rightarrow> nat" where
  "index_order k = (case array_index k of Some n \<Rightarrow> n | None \<Rightarrow> 0)"

definition obj_keys :: "'v obj \<Rightarrow> string list" where
  "obj_keys ob =
     (let ks = map fst (DAList.impl_of ob)
      in sort_key index_order (filter (\<lambda>k. array_index k \<noteq> None) ks)
         @ filter (\<lambda>k. array_index k = None) ks)"

text \<open>
  The objects that \<^verbatim>\<open>edges[k]\<close> can be: an array of node identifiers, a function of
  \<^verbatim>\<open>Object.prototype\<close> (by its key there), or \<^verbatim>\<open>Object.prototype\<close>.  All of them are
  truthy.  \<open>None\<close> is \<^verbatim>\<open>undefined\<close>.
\<close>

datatype entry = Array "string list" | Function string | ObjectPrototype

definition entry_of :: "entry property \<Rightarrow> entry option" where
  "entry_of x =
     (case x of
        Own a \<Rightarrow> Some a
      | Inherited f \<Rightarrow> Some (Function f)
      | Prototype \<Rightarrow> Some ObjectPrototype
      | Undefined \<Rightarrow> None)"

text \<open>
  The string that stands for a function or for \<^verbatim>\<open>Object.prototype\<close> where the program
  uses one as a property key or concatenates it.  The text of a built-in function is that
  of the V8 engine.
\<close>

definition function_name :: "string \<Rightarrow> string" where
  "function_name f = (case map_of prototype_functions f of Some (name, _) \<Rightarrow> name | None \<Rightarrow> f)"

definition function_length :: "string \<Rightarrow> nat" where
  "function_length f = (case map_of prototype_functions f of Some (_, n) \<Rightarrow> n | None \<Rightarrow> 0)"

definition function_text :: "string \<Rightarrow> string" where
  "function_text f = ''function '' @ function_name f @ ''() { [native code] }''"

section \<open>Numbers\<close>

text \<open>
  An edge weight is a JavaScript number: a double, held here as the rational it denotes,
  or one of \<^verbatim>\<open>-0\<close>, \<^verbatim>\<open>Infinity\<close>, \<^verbatim>\<open>-Infinity\<close>, \<^verbatim>\<open>NaN\<close>.  The finite doubles
  are zero and the rationals \<open>m \<sqdot> 2\<^sup>e\<close> with \<open>2\<^sup>5\<^sup>2 \<le> \<bar>m\<bar> < 2\<^sup>5\<^sup>3\<close> and
  \<open>-1074 \<le> e \<le> 971\<close>, and those with \<open>\<bar>m\<bar> < 2\<^sup>5\<^sup>2\<close> and \<open>e = -1074\<close>.
\<close>

datatype number = Finite rat | MinusZero | Infinity | MinusInfinity | NaN

fun floor_log2 :: "nat \<Rightarrow> nat" where
  "floor_log2 n = (if n < 2 then 0 else Suc (floor_log2 (n div 2)))"

declare floor_log2.simps [simp del]

definition pow2 :: "int \<Rightarrow> rat" where
  "pow2 e = (if 0 \<le> e then 2 ^ nat e else 1 / 2 ^ nat (- e))"

text \<open>\<open>exponent a\<close> is \<open>\<lfloor>log\<^sub>2 a\<rfloor>\<close> for a positive \<open>a\<close>.\<close>

definition exponent :: "rat \<Rightarrow> int" where
  "exponent a =
     (case quotient_of a of
        (m, n) \<Rightarrow>
          let k = int (floor_log2 (nat m)) - int (floor_log2 (nat n))
          in if pow2 k \<le> a then k else k - 1)"

definition round_half_even :: "rat \<Rightarrow> int" where
  "round_half_even r =
     (let f = \<lfloor>r\<rfloor>; t = r - of_int f
      in if t < 1 / 2 then f
         else if 1 / 2 < t then f + 1
         else if even f then f else f + 1)"

text \<open>
  The double nearest to a rational, ties to the even significand: 53 bits below the
  leading one, no finer than \<open>2\<^sup>-\<^sup>1\<^sup>0\<^sup>7\<^sup>4\<close>, and infinite from \<open>2\<^sup>1\<^sup>0\<^sup>2\<^sup>4\<close> on.
\<close>

definition round_double :: "rat \<Rightarrow> number" where
  "round_double x =
     (if x = 0 then Finite 0
      else
        let e = max (exponent \<bar>x\<bar>) (- 1022);
            n = round_half_even (\<bar>x\<bar> / pow2 (e - 52))
        in if 1023 < e \<or> (e = 1023 \<and> 9007199254740992 \<le> n)
           then (if 0 < x then Infinity else MinusInfinity)
           else if n = 0 then (if 0 < x then Finite 0 else MinusZero)
           else Finite (sgn x * of_int n * pow2 (e - 52)))"

text \<open>\<^verbatim>\<open>a + b\<close> on numbers.\<close>

fun number_add :: "number \<Rightarrow> number \<Rightarrow> number" where
  "number_add NaN b = NaN"
| "number_add a NaN = NaN"
| "number_add Infinity MinusInfinity = NaN"
| "number_add MinusInfinity Infinity = NaN"
| "number_add Infinity b = Infinity"
| "number_add a Infinity = Infinity"
| "number_add MinusInfinity b = MinusInfinity"
| "number_add a MinusInfinity = MinusInfinity"
| "number_add MinusZero b = b"
| "number_add a MinusZero = a"
| "number_add (Finite a) (Finite b) = round_double (a + b)"

text \<open>\<^verbatim>\<open>a < b\<close> on numbers; \<^verbatim>\<open>a > b\<close> is \<^verbatim>\<open>b < a\<close>.\<close>

fun number_less :: "number \<Rightarrow> number \<Rightarrow> bool" where
  "number_less NaN b = False"
| "number_less a NaN = False"
| "number_less Infinity b = False"
| "number_less a MinusInfinity = False"
| "number_less MinusInfinity b = True"
| "number_less a Infinity = True"
| "number_less MinusZero MinusZero = False"
| "number_less MinusZero (Finite b) = (0 < b)"
| "number_less (Finite a) MinusZero = (a < 0)"
| "number_less (Finite a) (Finite b) = (a < b)"

section \<open>Functions that read and assign variables, and may throw\<close>

text \<open>
  The errors of the program: the \<^verbatim>\<open>TypeError\<close> of a call of a method that a value does
  not have, and the three \<^verbatim>\<open>throw new Error(...)\<close> of \<^verbatim>\<open>shortestPath\<close>, by their
  messages.  The first two of these are the specification's \<^verbatim>\<open>UnknownNodeError\<close>, the
  third its \<^verbatim>\<open>NoPathError\<close>.
\<close>

datatype error = TypeError | SourceNotInGraph | DestinationNotInGraph | NoPathFound

text \<open>
  A function of the program runs on the variables of the closure it lives in, the state
  \<open>'s\<close>, and leaves them behind, changed or not, with the value it returns or the error it
  throws.
\<close>

type_synonym ('a, 's) prog = "'s \<Rightarrow> (error + 'a) \<times> 's"

definition return :: "'a \<Rightarrow> ('a, 's) prog" where
  "return x s = (Inr x, s)"

definition throw :: "error \<Rightarrow> ('a, 's) prog" where
  "throw e s = (Inl e, s)"

definition bind :: "('a, 's) prog \<Rightarrow> ('a \<Rightarrow> ('b, 's) prog) \<Rightarrow> ('b, 's) prog" where
  "bind m f s = (case m s of (Inl e, s') \<Rightarrow> (Inl e, s') | (Inr x, s') \<Rightarrow> f x s')"

definition read :: "('s \<Rightarrow> 'a) \<Rightarrow> ('a, 's) prog" where
  "read var s = (Inr (var s), s)"

definition assign :: "('s \<Rightarrow> 's) \<Rightarrow> (unit, 's) prog" where
  "assign change s = (Inr (), change s)"

text \<open>
  \<^verbatim>\<open>xs.forEach(f)\<close> on an array: the callback runs on the elements in order.  \<open>vars\<close> are
  the local variables of the enclosing function that the callback assigns; they are lost
  when it throws.
\<close>

fun forEach :: "'a list \<Rightarrow> ('a \<Rightarrow> 'b \<Rightarrow> ('b, 's) prog) \<Rightarrow> 'b \<Rightarrow> ('b, 's) prog" where
  "forEach [] f vars = return vars"
| "forEach (x # xs) f vars = bind (f x vars) (forEach xs f)"

text \<open>
  \<^verbatim>\<open>a.forEach(f)\<close> where \<^verbatim>\<open>a\<close> was read from \<^verbatim>\<open>edges\<close>: only an array has the
  method.  A function and \<^verbatim>\<open>Object.prototype\<close> have no property \<^verbatim>\<open>forEach\<close>, and
  \<^verbatim>\<open>undefined\<close> has no properties, so there the call throws.
\<close>

definition forEach_of :: "entry option \<Rightarrow> (string \<Rightarrow> 'b \<Rightarrow> ('b, 's) prog) \<Rightarrow> 'b \<Rightarrow> ('b, 's) prog" where
  "forEach_of a f vars = (case a of Some (Array vs) \<Rightarrow> forEach vs f vars | _ \<Rightarrow> throw TypeError)"

section \<open>The store and the mutation API\<close>

text \<open>
  An edge payload is any value; \<^verbatim>\<open>getEdgeData\<close> answers the empty record \<^verbatim>\<open>{}\<close>
  for a pair without one.
\<close>

datatype 'd payload = EmptyRecord | Payload 'd

text \<open>
  The three variables \<^verbatim>\<open>edges\<close>, \<^verbatim>\<open>edgeWeights\<close> and \<^verbatim>\<open>edgeData\<close> of a graph
  instance.  The keys of the latter two hold a \<^verbatim>\<open>|\<close>, which no key of
  \<^verbatim>\<open>Object.prototype\<close> does, so that reading them finds an own property or nothing.
\<close>

record 'd graph =
  edges :: "entry obj"
  edgeWeights :: "string \<rightharpoonup> number"
  edgeData :: "string \<rightharpoonup> 'd payload"

text \<open>The store of a new instance: \<^verbatim>\<open>edges = {}\<close>, \<^verbatim>\<open>edgeWeights = {}\<close>, \<^verbatim>\<open>edgeData = {}\<close>.\<close>

definition empty_graph :: "'d graph" where
  "empty_graph = \<lparr>edges = DAList.empty, edgeWeights = Map.empty, edgeData = Map.empty\<rparr>"

text \<open>\<^verbatim>\<open>edges[node] || []\<close>\<close>

definition adjacent :: "string \<Rightarrow> (entry, 'd graph) prog" where
  "adjacent node =
     bind (read edges) (\<lambda>e.
       return (case entry_of (get_property e node) of Some a \<Rightarrow> a | None \<Rightarrow> Array []))"

text \<open>\<^verbatim>\<open>edges[node] = adjacent(node)\<close>\<close>

definition addNode :: "string \<Rightarrow> (unit, 'd graph) prog" where
  "addNode node =
     bind (adjacent node) (\<lambda>a.
       assign (\<lambda>g. g\<lparr>edges := set_property node a (edges g)\<rparr>))"

text \<open>
  \<^verbatim>\<open>if(edges[u]){ edges[u] = adjacent(u).filter(...) }\<close>: only an array has the
  method \<^verbatim>\<open>filter\<close>.
\<close>

definition removeEdge :: "string \<Rightarrow> string \<Rightarrow> (unit, 'd graph) prog" where
  "removeEdge u v =
     bind (read edges) (\<lambda>e.
       if entry_of (get_property e u) \<noteq> None
       then bind (adjacent u) (\<lambda>a.
              case a of
                Array vs \<Rightarrow>
                  assign (\<lambda>g. g\<lparr>edges := set_property u (Array (filter (\<lambda>v'. v' \<noteq> v) vs)) (edges g)\<rparr>)
              | _ \<Rightarrow> throw TypeError)
       else return ())"

text \<open>
  In \<^verbatim>\<open>removeNode\<close>, \<^verbatim>\<open>Object.keys(edges)\<close> is taken once, before the loop;
  \<^verbatim>\<open>edges[u]\<close> is read when \<^verbatim>\<open>u\<close> is reached, and the inner \<^verbatim>\<open>forEach\<close> runs over
  the array found then: \<^verbatim>\<open>removeEdge\<close> stores a new array and leaves that one as it is.
\<close>

definition removeNode :: "string \<Rightarrow> (unit, 'd graph) prog" where
  "removeNode node =
     bind (read edges) (\<lambda>e.
     bind (forEach (obj_keys e) (\<lambda>u _.
             bind (read edges) (\<lambda>e'.
               forEach_of (entry_of (get_property e' u))
                 (\<lambda>v _. if v = node then removeEdge u v else return ()) ())) ()) (\<lambda>_.
       assign (\<lambda>g. g\<lparr>edges := DAList.delete node (edges g)\<rparr>)))"

definition nodes :: "(string list, 'd graph) prog" where
  "nodes =
     bind (read edges) (\<lambda>e.
     bind (forEach (obj_keys e) (\<lambda>u nodeSet.
             bind (read edges) (\<lambda>e'.
               forEach_of (entry_of (get_property e' u))
                 (\<lambda>v nodeSet. return (set_property v True nodeSet))
                 (set_property u True nodeSet)))
           (DAList.empty :: bool obj)) (\<lambda>nodeSet.
       return (obj_keys nodeSet)))"

definition encodeEdge :: "string \<Rightarrow> string \<Rightarrow> string" where
  "encodeEdge u v = u @ ''|'' @ v"

definition encodeDataEdge :: "string \<Rightarrow> string \<Rightarrow> string" where
  "encodeDataEdge u v = u @ ''||'' @ v"

definition setEdgeWeight :: "string \<Rightarrow> string \<Rightarrow> number \<Rightarrow> (unit, 'd graph) prog" where
  "setEdgeWeight u v weight =
     assign (\<lambda>g. g\<lparr>edgeWeights := (edgeWeights g)(encodeEdge u v \<mapsto> weight)\<rparr>)"

definition setEdgeData :: "string \<Rightarrow> string \<Rightarrow> 'd payload \<Rightarrow> (unit, 'd graph) prog" where
  "setEdgeData u v dat =
     assign (\<lambda>g. g\<lparr>edgeData := (edgeData g)(encodeDataEdge u v \<mapsto> dat)\<rparr>)"

definition getEdgeWeight :: "string \<Rightarrow> string \<Rightarrow> (number, 'd graph) prog" where
  "getEdgeWeight u v =
     bind (read edgeWeights) (\<lambda>ws.
       return (case ws (encodeEdge u v) of None \<Rightarrow> Finite 1 | Some weight \<Rightarrow> weight))"

definition getEdgeData :: "string \<Rightarrow> string \<Rightarrow> ('d payload, 'd graph) prog" where
  "getEdgeData u v =
     bind (read edgeData) (\<lambda>ds.
       return (case ds (encodeDataEdge u v) of None \<Rightarrow> EmptyRecord | Some dat \<Rightarrow> dat))"

text \<open>
  \<^verbatim>\<open>a.push(v)\<close> where \<^verbatim>\<open>a\<close> is what \<^verbatim>\<open>adjacent(u)\<close> returned after
  \<^verbatim>\<open>addNode(u)\<close>: an array is the one stored under \<^verbatim>\<open>u\<close>, which the call extends
  in place; a function and \<^verbatim>\<open>Object.prototype\<close> have no method \<^verbatim>\<open>push\<close>.
\<close>

definition push :: "string \<Rightarrow> entry \<Rightarrow> string \<Rightarrow> (unit, 'd graph) prog" where
  "push u a v =
     (case a of
        Array vs \<Rightarrow> assign (\<lambda>g. g\<lparr>edges := set_property u (Array (vs @ [v])) (edges g)\<rparr>)
      | _ \<Rightarrow> throw TypeError)"

text \<open>\<^verbatim>\<open>addEdge(u, v, weight, data)\<close>: an argument left out is \<^verbatim>\<open>undefined\<close>, here \<open>None\<close>.\<close>

definition addEdge ::
  "string \<Rightarrow> string \<Rightarrow> number option \<Rightarrow> 'd payload option \<Rightarrow> (unit, 'd graph) prog" where
  "addEdge u v weight dat =
     bind (addNode u) (\<lambda>_.
     bind (addNode v) (\<lambda>_.
     bind (adjacent u) (\<lambda>a.
     bind (push u a v) (\<lambda>_.
     bind (case weight of Some w \<Rightarrow> setEdgeWeight u v w | None \<Rightarrow> return ()) (\<lambda>_.
       (case dat of Some x \<Rightarrow> setEdgeData u v x | None \<Rightarrow> return ()))))))"

definition indegree :: "string \<Rightarrow> (nat, 'd graph) prog" where
  "indegree node =
     bind (read edges) (\<lambda>e.
       forEach (obj_keys e) (\<lambda>u degree.
         bind (read edges) (\<lambda>e'.
           forEach_of (entry_of (get_property e' u))
             (\<lambda>v degree. return (if v = node then degree + 1 else degree)) degree)) 0)"

text \<open>
  \<^verbatim>\<open>node in edges ? edges[node].length : 0\<close>: the operator \<^verbatim>\<open>in\<close> finds inherited
  properties too.  A function has a \<^verbatim>\<open>length\<close>, \<^verbatim>\<open>Object.prototype\<close> has none, and
  the call returns \<^verbatim>\<open>undefined\<close>, here \<open>None\<close>.
\<close>

definition outdegree :: "string \<Rightarrow> (nat option, 'd graph) prog" where
  "outdegree node =
     bind (read edges) (\<lambda>e.
       return (case entry_of (get_property e node) of
                 None \<Rightarrow> Some 0
               | Some (Array vs) \<Rightarrow> Some (length vs)
               | Some (Function f) \<Rightarrow> Some (function_length f)
               | Some ObjectPrototype \<Rightarrow> None))"

section \<open>Depth-first search and topological sort\<close>

text \<open>\<^verbatim>\<open>visited[node]\<close> as a condition: an own property is \<^verbatim>\<open>true\<close>, an inherited one an object.\<close>

definition is_visited :: "bool obj \<Rightarrow> string \<Rightarrow> bool" where
  "is_visited visited node =
     (case get_property visited node of Own b \<Rightarrow> b | Undefined \<Rightarrow> False | _ \<Rightarrow> True)"

text \<open>
  \<^verbatim>\<open>DFSVisit\<close> works on the two variables \<^verbatim>\<open>visited\<close> and \<^verbatim>\<open>nodeList\<close> of
  \<^verbatim>\<open>depthFirstSearch\<close>.  \<open>forEach_DFSVisit vs\<close> is \<^verbatim>\<open>vs.forEach(DFSVisit)\<close>.
\<close>

function (domintros)
  DFSVisit :: "string \<Rightarrow> bool obj \<times> string list \<Rightarrow> (bool obj \<times> string list, 'd graph) prog" and
  forEach_DFSVisit ::
    "string list \<Rightarrow> bool obj \<times> string list \<Rightarrow> (bool obj \<times> string list, 'd graph) prog"
where
  "DFSVisit node (visited, nodeList) g =
     (if \<not> is_visited visited node
      then (case adjacent node g of
              (Inl e, g') \<Rightarrow> (Inl e, g')
            | (Inr (Array vs), g') \<Rightarrow>
                (case forEach_DFSVisit vs (set_property node True visited, nodeList) g' of
                   (Inl e, g'') \<Rightarrow> (Inl e, g'')
                 | (Inr (visited', nodeList'), g'') \<Rightarrow> (Inr (visited', nodeList' @ [node]), g''))
            | (Inr _, g') \<Rightarrow> (Inl TypeError, g'))
      else (Inr (visited, nodeList), g))"
| "forEach_DFSVisit [] vars g = (Inr vars, g)"
| "forEach_DFSVisit (v # vs) vars g =
     (case DFSVisit v vars g of
        (Inl e, g') \<Rightarrow> (Inl e, g')
      | (Inr vars', g') \<Rightarrow> forEach_DFSVisit vs vars' g')"
  by pat_completeness auto

text \<open>
  The recursion ends because every call that goes deeper marks a node that has an
  adjacency entry and was not marked before; a node without an entry has no neighbours.
\<close>

definition marked :: "bool obj \<Rightarrow> string set" where
  "marked visited = {node. is_visited visited node}"

definition has_entry :: "'d graph \<Rightarrow> string set" where
  "has_entry g = dom (DAList.lookup (edges g))"

lemma finite_has_entry: "finite (has_entry g)"
  by (simp add: has_entry_def DAList.lookup.rep_eq finite_dom_map_of)

lemma is_visited_set_property:
  "is_visited (set_property n True visited) m \<longleftrightarrow> m = n \<or> is_visited visited m"
  by (auto simp: is_visited_def set_property_def get_property_def DAList.lookup_update
        prototype_functions_def split: option.splits)

lemma marked_set_property: "marked (set_property n True visited) = insert n (marked visited)"
  by (auto simp: marked_def is_visited_set_property)

lemma adjacent_state: "snd (adjacent node g) = g"
  by (simp add: adjacent_def bind_def read_def return_def)

lemma adjacent_no_entry:
  "node \<notin> has_entry g \<Longrightarrow> adjacent node g = (Inr (Array vs), g') \<Longrightarrow> vs = []"
  by (auto simp: has_entry_def adjacent_def bind_def read_def return_def get_property_def
        entry_of_def split: option.splits if_splits)

lemma visited_mono_dom:
  "DFSVisit_forEach_DFSVisit_dom (Inl (node, vars, g)) \<Longrightarrow>
   DFSVisit node vars g = (Inr vars', g') \<Longrightarrow> g' = g \<and> marked (fst vars) \<subseteq> marked (fst vars')"
  "DFSVisit_forEach_DFSVisit_dom (Inr (vs, vars, g)) \<Longrightarrow>
   forEach_DFSVisit vs vars g = (Inr vars', g') \<Longrightarrow> g' = g \<and> marked (fst vars) \<subseteq> marked (fst vars')"
proof (induction node vars g and vs vars g arbitrary: vars' g' and vars' g'
       rule: DFSVisit_forEach_DFSVisit.pinduct)
  case (1 node visited nodeList g)
  show ?case
  proof (cases "is_visited visited node")
    case True
    with 1(1,3) show ?thesis by (simp add: DFSVisit.psimps)
  next
    case False
    with 1(1,3) obtain vs g1 visited1 nodeList1 g2 where
      a: "adjacent node g = (Inr (Array vs), g1)"
      and r: "forEach_DFSVisit vs (set_property node True visited, nodeList) g1
              = (Inr (visited1, nodeList1), g2)"
      and v: "vars' = (visited1, nodeList1 @ [node])" "g' = g2"
      by (auto simp: DFSVisit.psimps split: prod.splits sum.splits entry.splits)
    from 1(2) [OF False a [symmetric] refl refl r]
    have "g2 = g1" "marked (set_property node True visited) \<subseteq> marked visited1" by simp_all
    moreover from a adjacent_state [of node g] have "g1 = g" by simp
    ultimately show ?thesis using v by (auto simp: marked_set_property)
  qed
next
  case (2 vars g)
  then show ?case by (simp add: forEach_DFSVisit.psimps)
next
  case (3 v vs vars g)
  from 3(1,4) obtain vars1 g1 where
    a: "DFSVisit v vars g = (Inr vars1, g1)"
    and r: "forEach_DFSVisit vs vars1 g1 = (Inr vars', g')"
    by (auto simp: forEach_DFSVisit.psimps split: prod.splits sum.splits)
  from 3(2) [OF a] have "g1 = g" "marked (fst vars) \<subseteq> marked (fst vars1)" by simp_all
  moreover from 3(3) [OF a [symmetric] refl r]
  have "g' = g1" "marked (fst vars1) \<subseteq> marked (fst vars')" by simp_all
  ultimately show ?case by auto
qed

termination DFSVisit
proof (relation "inv_image (finite_psubset <*lex*> less_than)
          (\<lambda>x. case x of
                 Inl (node, vars, g) \<Rightarrow> (has_entry g - marked (fst vars), Suc 0)
               | Inr (vs, vars, g) \<Rightarrow> (has_entry g - marked (fst vars), 2 * length vs))", goal_cases)
  case 1
  then show ?case by auto
next
  case (2 node visited nodeList g x1 g' a vs)
  then have a: "adjacent node g = (Inr (Array vs), g')" by simp
  with adjacent_state [of node g] have g: "g' = g" by simp
  show ?case
  proof (cases "node \<in> has_entry g")
    case True
    moreover from 2(1) have "node \<notin> marked visited" by (simp add: marked_def)
    ultimately have "has_entry g - marked (set_property node True visited)
        \<subset> has_entry g - marked visited"
      unfolding marked_set_property by blast
    then show ?thesis by (simp add: g finite_psubset_def finite_has_entry)
  next
    case False
    from adjacent_no_entry [OF False a] have "vs = []" .
    moreover have "has_entry g - marked (set_property node True visited)
        \<subseteq> has_entry g - marked visited"
      by (auto simp: marked_set_property)
    ultimately show ?thesis
      by (auto simp: g finite_psubset_def finite_has_entry)
  qed
next
  case (3 v vs vars g)
  then show ?case by (simp add: finite_psubset_def)
next
  case (4 v vs vars g x1 g' vars')
  then have "DFSVisit_forEach_DFSVisit_dom (Inl (v, vars, g))"
    and "DFSVisit v vars g = (Inr vars', g')" by simp_all
  from visited_mono_dom(1) [OF this]
  have "g' = g" "has_entry g - marked (fst vars') \<subseteq> has_entry g - marked (fst vars)" by auto
  then show ?case
    by (auto simp: finite_psubset_def finite_has_entry)
qed

text \<open>
  \<^verbatim>\<open>depthFirstSearch(sourceNodes, includeSourceNodes)\<close>: an argument left out is \<open>None\<close>.
  \<^verbatim>\<open>!sourceNodes\<close> holds for no array, \<^verbatim>\<open>typeof includeSourceNodes !== "boolean"\<close> for
  no boolean.
\<close>

definition depthFirstSearch :: "string list option \<Rightarrow> bool option \<Rightarrow> (string list, 'd graph) prog" where
  "depthFirstSearch sourceNodes includeSourceNodes =
     bind (case sourceNodes of None \<Rightarrow> nodes | Some ns \<Rightarrow> return ns) (\<lambda>sourceNodes.
     bind (if (case includeSourceNodes of None \<Rightarrow> True | Some b \<Rightarrow> b)
           then forEach_DFSVisit sourceNodes (DAList.empty, [])
           else
             bind (forEach sourceNodes
                     (\<lambda>node (visited, nodeList). return (set_property node True visited, nodeList))
                     (DAList.empty, []))
                  (forEach sourceNodes
                     (\<lambda>node vars.
                        bind (adjacent node) (\<lambda>a.
                          case a of Array vs \<Rightarrow> forEach_DFSVisit vs vars | _ \<Rightarrow> throw TypeError))))
       (\<lambda>(visited, nodeList). return nodeList))"

definition topologicalSort :: "string list option \<Rightarrow> bool option \<Rightarrow> (string list, 'd graph) prog" where
  "topologicalSort sourceNodes includeSourceNodes =
     bind (depthFirstSearch sourceNodes includeSourceNodes) (\<lambda>nodeList. return (rev nodeList))"

section \<open>Shortest path\<close>

text \<open>
  \<^verbatim>\<open>extractMin\<close> returns a node or \<^verbatim>\<open>null\<close> (\<open>None\<close>); used as a property key or
  in a string concatenation, \<^verbatim>\<open>null\<close> is the string \<^verbatim>\<open>"null"\<close>.
\<close>

definition property_key :: "string option \<Rightarrow> string" where
  "property_key u = (case u of None \<Rightarrow> ''null'' | Some s \<Rightarrow> s)"

text \<open>
  \<^verbatim>\<open>d[k]\<close> in a comparison or a sum with a number: \<^verbatim>\<open>undefined\<close> is not a number,
  and neither is an inherited object in a comparison with a number.
\<close>

definition number_of :: "number property \<Rightarrow> number" where
  "number_of x = (case x of Own n \<Rightarrow> n | _ \<Rightarrow> NaN)"

definition initializeSingleSource ::
  "string \<Rightarrow> string \<Rightarrow> number obj \<Rightarrow> (number obj, 'd graph) prog" where
  "initializeSingleSource source destination d =
     bind nodes (\<lambda>ns.
     bind (forEach ns (\<lambda>node d. return (set_property node Infinity d)) d) (\<lambda>d.
       if get_property d source \<noteq> Own Infinity then throw SourceNotInGraph
       else if get_property d destination \<noteq> Own Infinity then throw DestinationNotInGraph
       else return (set_property source (Finite 0) d)))"

definition initializePriorityQueue :: "bool obj \<Rightarrow> (bool obj, 'd graph) prog" where
  "initializePriorityQueue q =
     bind nodes (\<lambda>ns. forEach ns (\<lambda>node q. return (set_property node True q)) q)"

definition priorityQueueEmpty :: "bool obj \<Rightarrow> bool" where
  "priorityQueueEmpty q = (length (obj_keys q) = 0)"

definition extractMin :: "number obj \<Rightarrow> bool obj \<Rightarrow> string option \<times> bool obj" where
  "extractMin d q =
     (case fold (\<lambda>node (min, minNode).
                   if number_less (number_of (get_property d node)) min
                   then (number_of (get_property d node), Some node) else (min, minNode))
                (obj_keys q) (Infinity, None) of
        (_, None) \<Rightarrow> (None, DAList.empty)
      | (_, Some minNode) \<Rightarrow> (Some minNode, DAList.delete minNode q))"

text \<open>
  \<^verbatim>\<open>relax(u, v)\<close> on the variables \<^verbatim>\<open>d\<close> and \<^verbatim>\<open>p\<close>; the predecessor stored is
  \<^verbatim>\<open>u\<close> itself, which is \<^verbatim>\<open>null\<close> when \<^verbatim>\<open>extractMin\<close> found no node.  Then
  \<^verbatim>\<open>d[u]\<close> is \<^verbatim>\<open>d["null"]\<close>, and otherwise it is a number of \<^verbatim>\<open>d\<close> itself, because
  \<^verbatim>\<open>extractMin\<close> returns a key only when \<^verbatim>\<open>d\<close> holds a number less than
  \<^verbatim>\<open>Infinity\<close> for it; so \<^verbatim>\<open>d[u] + w\<close> adds numbers, or \<^verbatim>\<open>undefined\<close> and a
  number.  The comparison holds only for a number \<^verbatim>\<open>d[v]\<close>, which is a property of
  \<^verbatim>\<open>d\<close> itself.
\<close>

definition relax ::
  "string option \<Rightarrow> string \<Rightarrow> number obj \<times> string option obj \<Rightarrow>
   (number obj \<times> string option obj, 'd graph) prog" where
  "relax u v = (\<lambda>(d, p).
     bind (getEdgeWeight (property_key u) v) (\<lambda>w.
       return (if number_less (number_add (number_of (get_property d (property_key u))) w)
                    (number_of (get_property d v))
               then (set_property v (number_add (number_of (get_property d (property_key u))) w) d,
                     set_property v u p)
               else (d, p))))"

lemma length_obj_keys: "length (obj_keys ob) = length (DAList.impl_of ob)"
proof -
  have "length (filter P xs) + length (filter (\<lambda>x. \<not> P x) xs) = length xs"
    for P and xs :: "string list"
    by (induction xs) auto
  from this [of "\<lambda>k. array_index k \<noteq> None" "map fst (DAList.impl_of ob)"]
  show ?thesis by (simp add: obj_keys_def Let_def)
qed

lemma set_obj_keys: "set (obj_keys ob) = dom (DAList.lookup ob)"
  by (auto simp: obj_keys_def Let_def DAList.lookup.rep_eq dom_map_of_conv_image_fst)

lemma distinct_obj_keys: "distinct (obj_keys ob)"
  by (auto simp: obj_keys_def Let_def distinct_map_filter)

lemma extractMin_fold_mem:
  "fold (\<lambda>node (min, minNode).
           if number_less (number_of (get_property d node)) min
           then (number_of (get_property d node), Some node) else (min, minNode)) ks acc
     = (m, Some k) \<Longrightarrow> k \<in> set ks \<or> snd acc = Some k"
  by (induction ks arbitrary: acc) (fastforce split: if_splits prod.splits)+

lemma length_delete_less:
  assumes "k \<in> dom (DAList.lookup ob)"
  shows "length (DAList.impl_of (DAList.delete k ob)) < length (DAList.impl_of ob)"
proof -
  from assms obtain v where "(k, v) \<in> set (DAList.impl_of ob)"
    by (auto simp: DAList.lookup.rep_eq dest: map_of_SomeD)
  then have "length (filter (\<lambda>(k', _). k \<noteq> k') (DAList.impl_of ob)) < length (DAList.impl_of ob)"
    by (intro length_filter_less [where x = "(k, v)"]) auto
  then show ?thesis
    by (simp add: DAList.delete.rep_eq AList.delete_eq)
qed

lemma extractMin_shrinks:
  "\<not> priorityQueueEmpty q \<Longrightarrow> extractMin d q = (u, q') \<Longrightarrow>
   length (DAList.impl_of q') < length (DAList.impl_of q)"
  by (auto simp: extractMin_def priorityQueueEmpty_def length_obj_keys DAList.empty.rep_eq
           split: prod.splits option.splits
           dest!: extractMin_fold_mem intro!: length_delete_less simp: set_obj_keys)

text \<open>The loop of \<^verbatim>\<open>dijkstra\<close>; every round takes a key out of \<^verbatim>\<open>q\<close> or empties it.\<close>

function dijkstra_loop ::
  "number obj \<times> string option obj \<times> bool obj \<Rightarrow>
   (number obj \<times> string option obj, 'd graph) prog" where
  "dijkstra_loop (d, p, q) g =
     (if priorityQueueEmpty q then (Inr (d, p), g)
      else (case extractMin d q of
              (u, q') \<Rightarrow>
                (case bind (adjacent (property_key u))
                        (\<lambda>a. forEach_of (Some a) (relax u) (d, p)) g of
                   (Inl e, g') \<Rightarrow> (Inl e, g')
                 | (Inr (d', p'), g') \<Rightarrow> dijkstra_loop (d', p', q') g')))"
  by pat_completeness auto

termination dijkstra_loop
  by (relation "measure (\<lambda>((d, p, q), g). length (DAList.impl_of q))")
     (auto dest: extractMin_shrinks [OF _ sym])

definition dijkstra ::
  "string \<Rightarrow> string \<Rightarrow> (number obj \<times> string option obj, 'd graph) prog" where
  "dijkstra source destination =
     bind (initializeSingleSource source destination DAList.empty) (\<lambda>d.
     bind (initializePriorityQueue DAList.empty) (\<lambda>q.
       dijkstra_loop (d, DAList.empty, q)))"

text \<open>
  What the variable \<^verbatim>\<open>node\<close> of \<^verbatim>\<open>path\<close> and the array \<^verbatim>\<open>nodeList\<close> hold: a node
  identifier, or an object that \<^verbatim>\<open>p\<close> inherits, with the string that stands for it as
  a property key.
\<close>

datatype element = NodeId string | InheritedFunction string | InheritedPrototype

definition key_of :: "element \<Rightarrow> string" where
  "key_of x =
     (case x of
        NodeId s \<Rightarrow> s
      | InheritedFunction f \<Rightarrow> function_text f
      | InheritedPrototype \<Rightarrow> ''[object Object]'')"

text \<open>
  \<^verbatim>\<open>p[node]\<close> when it is truthy, and \<open>None\<close> when it is not: the test of the loop is
  false for \<^verbatim>\<open>undefined\<close>, for \<^verbatim>\<open>null\<close> and for the empty string.
\<close>

definition predecessor :: "string option obj \<Rightarrow> element \<Rightarrow> element option" where
  "predecessor p node =
     (case get_property p (key_of node) of
        Own (Some u) \<Rightarrow> if u = [] then None else Some (NodeId u)
      | Own None \<Rightarrow> None
      | Inherited f \<Rightarrow> Some (InheritedFunction f)
      | Prototype \<Rightarrow> Some InheritedPrototype
      | Undefined \<Rightarrow> None)"

text \<open>
  The loop of \<^verbatim>\<open>path\<close> on \<^verbatim>\<open>nodeList\<close>, \<^verbatim>\<open>weight\<close> and \<^verbatim>\<open>node\<close>.  Nothing bounds
  the walk along the predecessors, so the loop is a partial function and \<open>None\<close> stands
  for a walk that does not end.
\<close>

partial_function (option) path_loop ::
  "string option obj \<Rightarrow> element list \<Rightarrow> number \<Rightarrow> element \<Rightarrow> 'd graph \<Rightarrow>
   ((error + element list \<times> number \<times> element) \<times> 'd graph) option" where
  "path_loop p nodeList weight node g =
     (case predecessor p node of
        None \<Rightarrow> Some (Inr (nodeList, weight, node), g)
      | Some u \<Rightarrow>
          (case getEdgeWeight (key_of u) (key_of node) g of
             (Inl e, g') \<Rightarrow> Some (Inl e, g')
           | (Inr w, g') \<Rightarrow> path_loop p (nodeList @ [node]) (number_add weight w) u g'))"

declare path_loop.simps [code]

text \<open>A returned path is the reversed \<^verbatim>\<open>nodeList\<close> with its property \<^verbatim>\<open>weight\<close>.\<close>

definition path ::
  "string \<Rightarrow> string \<Rightarrow> string option obj \<Rightarrow> 'd graph \<Rightarrow>
   ((error + element list \<times> number) \<times> 'd graph) option" where
  "path source destination p g =
     (case path_loop p [] (Finite 0) (NodeId destination) g of
        None \<Rightarrow> None
      | Some (Inl e, g') \<Rightarrow> Some (Inl e, g')
      | Some (Inr (nodeList, weight, node), g') \<Rightarrow>
          Some (if node \<noteq> NodeId source then throw NoPathFound g'
                else return (rev (nodeList @ [node]), weight) g'))"

definition shortestPath ::
  "string \<Rightarrow> string \<Rightarrow> 'd graph \<Rightarrow> ((error + element list \<times> number) \<times> 'd graph) option" where
  "shortestPath source destination g =
     (case dijkstra source destination g of
        (Inl e, g') \<Rightarrow> Some (Inl e, g')
      | (Inr (d, p), g') \<Rightarrow> path source destination p g')"

section \<open>Serialization\<close>

text \<open>
  The serialized form \<^verbatim>\<open>{nodes: [{id}], links: [{source, target, weight, data}]}\<close>.  A node
  object \<^verbatim>\<open>{id: n}\<close> is its id; a property that a link lacks is \<open>None\<close>.
\<close>

record 'd link =
  source :: string
  target :: string
  weight :: "number option"
  data :: "'d payload option"

record 'd serialized =
  node_ids :: "string list"
  links :: "'d link list"

definition serialize :: "('d serialized, 'd graph) prog" where
  "serialize =
     bind nodes (\<lambda>ns.
     bind (forEach ns (\<lambda>src ls.
             bind (adjacent src) (\<lambda>a.
               forEach_of (Some a) (\<lambda>tgt ls.
                 bind (getEdgeWeight src tgt) (\<lambda>w.
                 bind (getEdgeData src tgt) (\<lambda>x.
                   return (ls @ [\<lparr>source = src, target = tgt, weight = Some w, data = Some x\<rparr>]))))
                 ls)) []) (\<lambda>ls.
       return \<lparr>node_ids = ns, links = ls\<rparr>))"

definition deserialize :: "'d serialized \<Rightarrow> (unit, 'd graph) prog" where
  "deserialize serialized =
     bind (forEach (node_ids serialized) (\<lambda>n _. addNode n) ()) (\<lambda>_.
       forEach (links serialized) (\<lambda>l _. addEdge (source l) (target l) (weight l) (data l)) ())"

text \<open>
  The constructor \<^verbatim>\<open>Graph(serialized)\<close>, with or without its argument: the outcome of
  \<^verbatim>\<open>deserialize\<close> on the new store, and that store.
\<close>

definition Graph :: "'d serialized option \<Rightarrow> (error + unit) \<times> 'd graph" where
  "Graph serialized =
     (case serialized of None \<Rightarrow> return () | Some s \<Rightarrow> deserialize s) empty_graph"

section \<open>Functions that leave the variables alone\<close>

text \<open>
  \<open>keeps_state m\<close>: whatever \<open>m\<close> returns or throws, the variables are afterwards what
  they were before.  Reading does so, and so does every function built from functions
  that do.
\<close>

definition keeps_state :: "('a, 's) prog \<Rightarrow> bool" where
  "keeps_state m = (\<forall>s. snd (m s) = s)"

lemma keeps_stateD: "keeps_state m \<Longrightarrow> snd (m s) = s"
  by (simp add: keeps_state_def)

lemma keeps_state_return [intro!, simp]: "keeps_state (return x)"
  by (simp add: keeps_state_def return_def)

lemma keeps_state_throw [intro!, simp]: "keeps_state (throw e)"
  by (simp add: keeps_state_def throw_def)

lemma keeps_state_read [intro!, simp]: "keeps_state (read var)"
  by (simp add: keeps_state_def read_def)

lemma keeps_state_bind [intro!]:
  assumes "keeps_state m" "\<And>x. keeps_state (f x)"
  shows "keeps_state (bind m f)"
  unfolding keeps_state_def
proof
  fix s
  from assms(1) have "snd (m s) = s" by (rule keeps_stateD)
  then show "snd (bind m f s) = s"
    using assms(2) by (cases "m s") (auto simp: bind_def keeps_state_def split: sum.splits)
qed

lemma keeps_state_forEach [intro!]:
  assumes "\<And>x vars. keeps_state (f x vars)"
  shows "keeps_state (forEach xs f vars)"
  using assms by (induction xs arbitrary: vars) auto

lemma keeps_state_forEach_of [intro!]:
  assumes "\<And>x vars. keeps_state (f x vars)"
  shows "keeps_state (forEach_of a f vars)"
  using assms by (auto simp: forEach_of_def split: option.splits entry.splits)

lemma keeps_state_adjacent: "keeps_state (adjacent node)"
  unfolding adjacent_def by auto

lemma keeps_state_nodes: "keeps_state nodes"
  unfolding nodes_def by auto

lemma keeps_state_getEdgeWeight: "keeps_state (getEdgeWeight u v)"
  unfolding getEdgeWeight_def by auto

lemma keeps_state_getEdgeData: "keeps_state (getEdgeData u v)"
  unfolding getEdgeData_def by auto

lemma keeps_state_indegree: "keeps_state (indegree node)"
  unfolding indegree_def by auto

lemma keeps_state_outdegree: "keeps_state (outdegree node)"
  unfolding outdegree_def by auto

lemma DFSVisit_state:
  "snd (DFSVisit node vars g) = g"
  "snd (forEach_DFSVisit vs vars g) = g"
proof (induction node vars g and vs vars g rule: DFSVisit_forEach_DFSVisit.induct)
  case (1 node visited nodeList g)
  show ?case
  proof (cases "is_visited visited node")
    case True
    then show ?thesis by simp
  next
    case False
    have g: "snd (adjacent node g) = g" by (rule adjacent_state)
    show ?thesis
    proof (cases "adjacent node g")
      case (Pair r g')
      with g have g': "g' = g" by simp
      show ?thesis
      proof (cases r)
        case (Inl e)
        with False Pair g' show ?thesis by simp
      next
        case (Inr a)
        show ?thesis
        proof (cases a)
          case (Array vs)
          from 1 [OF False Pair [symmetric] Inr Array]
          have "snd (forEach_DFSVisit vs (set_property node True visited, nodeList) g') = g'" .
          with False Pair Inr Array g' show ?thesis
            by (auto split: prod.splits sum.splits)
        qed (use False Pair Inr g' in simp_all)
      qed
    qed
  qed
next
  case (2 vars g)
  show ?case by simp
next
  case (3 v vs vars g)
  show ?case
  proof (cases "DFSVisit v vars g")
    case (Pair r g')
    with 3(1) have g': "g' = g" by simp
    show ?thesis
    proof (cases r)
      case (Inl e)
      with Pair g' show ?thesis by simp
    next
      case (Inr vars')
      from 3(2) [OF Pair [symmetric] Inr] Pair Inr g' show ?thesis by simp
    qed
  qed
qed

lemma keeps_state_DFSVisit: "keeps_state (forEach_DFSVisit vs vars)"
  by (simp add: keeps_state_def DFSVisit_state)

lemma keeps_state_depthFirstSearch: "keeps_state (depthFirstSearch ss inc)"
  unfolding depthFirstSearch_def
  by (auto intro!: keeps_state_nodes keeps_state_DFSVisit keeps_state_adjacent
      split: option.splits entry.splits prod.splits)

lemma keeps_state_topologicalSort: "keeps_state (topologicalSort ss inc)"
  unfolding topologicalSort_def by (auto intro!: keeps_state_depthFirstSearch)

lemma keeps_state_serialize: "keeps_state serialize"
  unfolding serialize_def
  by (auto intro!: keeps_state_nodes keeps_state_adjacent keeps_state_getEdgeWeight
      keeps_state_getEdgeData)

lemma keeps_state_relax: "keeps_state (relax u v vars)"
  unfolding relax_def by (auto intro!: keeps_state_getEdgeWeight split: prod.splits)

lemma dijkstra_loop_state: "snd (dijkstra_loop vars g) = g"
proof (induction vars g rule: dijkstra_loop.induct)
  case (1 d p q g)
  show ?case
  proof (cases "priorityQueueEmpty q")
    case True
    then show ?thesis by simp
  next
    case False
    obtain u q' where e: "extractMin d q = (u, q')" by (cases "extractMin d q")
    have "keeps_state (bind (adjacent (property_key u)) (\<lambda>a. forEach_of (Some a) (relax u) (d, p)))"
      by (auto intro!: keeps_state_adjacent keeps_state_relax)
    then have k: "snd (bind (adjacent (property_key u)) (\<lambda>a. forEach_of (Some a) (relax u) (d, p)) g) = g"
      by (rule keeps_stateD)
    show ?thesis
    proof (cases "bind (adjacent (property_key u)) (\<lambda>a. forEach_of (Some a) (relax u) (d, p)) g")
      case (Pair r g')
      with k have g': "g' = g" by simp
      show ?thesis
      proof (cases r)
        case (Inl err)
        with False e Pair g' show ?thesis by simp
      next
        case (Inr dp)
        obtain d' p' where dp: "dp = (d', p')" by (cases dp)
        from 1 [OF False e [symmetric] Pair [symmetric] Inr dp [symmetric]]
        show ?thesis using False e Pair Inr dp g' by simp
      qed
    qed
  qed
qed

lemma keeps_state_dijkstra_loop: "keeps_state (dijkstra_loop vars)"
  by (simp add: keeps_state_def dijkstra_loop_state)

lemma keeps_state_dijkstra: "keeps_state (dijkstra s t)"
  unfolding dijkstra_def initializeSingleSource_def initializePriorityQueue_def
  by (auto intro!: keeps_state_nodes keeps_state_dijkstra_loop)

lemma path_loop_state:
  assumes "path_loop p nodeList w node g = Some y"
  shows "snd y = g"
proof (rule path_loop.raw_induct [where P = "\<lambda>p nodeList w node g y. snd y = g"], goal_cases)
  case (1 f p nodeList w node g y)
  have k: "snd (getEdgeWeight a b g) = g" for a b
    using keeps_state_getEdgeWeight by (rule keeps_stateD)
  show ?case
  proof (cases "predecessor p node")
    case None
    with 1(2) show ?thesis by auto
  next
    case (Some u)
    show ?thesis
    proof (cases "getEdgeWeight (key_of u) (key_of node) g")
      case (Pair r g')
      with k [of "key_of u" "key_of node"] have g': "g' = g" by simp
      show ?thesis
      proof (cases r)
        case (Inl e)
        with 1(2) Some Pair g' show ?thesis by auto
      next
        case (Inr x)
        with 1(2) Some Pair have "f p (nodeList @ [node]) (number_add w x) u g' = Some y"
          by simp
        from 1(1) [OF this] g' show ?thesis by simp
      qed
    qed
  qed
next
  case 2
  show "path_loop p nodeList w node g = Some y" by (rule assms)
qed

lemma path_state: "path s t p g = Some y \<Longrightarrow> snd y = g"
  by (auto simp: path_def throw_def return_def split: option.splits sum.splits prod.splits if_splits
      dest!: path_loop_state)

lemma shortestPath_state: "shortestPath s t g = Some y \<Longrightarrow> snd y = g"
proof -
  assume a: "shortestPath s t g = Some y"
  have k: "snd (dijkstra s t g) = g"
    using keeps_state_dijkstra by (rule keeps_stateD)
  show ?thesis
  proof (cases "dijkstra s t g")
    case (Pair r g')
    with k have g': "g' = g" by simp
    show ?thesis
    proof (cases r)
      case (Inl e)
      with a Pair g' show ?thesis by (auto simp: shortestPath_def)
    next
      case (Inr dp)
      with a Pair g' have "path s t (snd dp) g = Some y"
        by (auto simp: shortestPath_def split: prod.splits)
      then show ?thesis by (rule path_state)
    qed
  qed
qed

section \<open>Properties of the store\<close>

text \<open>
  The neighbours of a node are the elements of the array that \<^verbatim>\<open>adjacent\<close> returns for
  it: those of the array that \<^verbatim>\<open>edges\<close> holds under the node itself.
\<close>

definition neighbours :: "'d graph \<Rightarrow> string \<Rightarrow> string list" where
  "neighbours g u = (case fst (adjacent u g) of Inr (Array vs) \<Rightarrow> vs | _ \<Rightarrow> [])"

lemma adjacent_Array: "adjacent node g = (Inr (Array vs), g') \<Longrightarrow> vs = neighbours g node \<and> g' = g"
  using adjacent_state [of node g] by (simp add: neighbours_def)

lemma neighbours_lookup:
  "neighbours g u = (case DAList.lookup (edges g) u of Some (Array vs) \<Rightarrow> vs | _ \<Rightarrow> [])"
  by (simp add: neighbours_def adjacent_def bind_def read_def return_def get_property_def
        entry_of_def split: option.splits entry.splits)

lemma lookup_set_property:
  "DAList.lookup (set_property k v ob) m
   = (if k = ''__proto__'' \<and> DAList.lookup ob k = None then DAList.lookup ob m
      else if m = k then Some v else DAList.lookup ob m)"
  by (auto simp: set_property_def DAList.lookup_update)

lemma edges_addNode:
  "edges (snd (addNode n g))
   = set_property n (case entry_of (get_property (edges g) n) of Some a \<Rightarrow> a | None \<Rightarrow> Array [])
       (edges g)"
  by (simp add: addNode_def adjacent_def bind_def read_def return_def assign_def)

lemma addNode_returns: "fst (addNode n g) = Inr ()"
  by (simp add: addNode_def adjacent_def bind_def read_def return_def assign_def)

lemma neighbours_addNode: "neighbours (snd (addNode n g)) m = neighbours g m"
proof (cases "DAList.lookup (edges g) n")
  case None
  then show ?thesis
    by (simp add: neighbours_lookup edges_addNode lookup_set_property get_property_def
          entry_of_def split: option.splits)
next
  case (Some a)
  then show ?thesis
    by (simp add: neighbours_lookup edges_addNode lookup_set_property get_property_def
          entry_of_def)
qed

lemma removeEdge_frame:
  "edgeWeights (snd (removeEdge u v g)) = edgeWeights g"
  "edgeData (snd (removeEdge u v g)) = edgeData g"
  by (simp_all add: removeEdge_def adjacent_def bind_def read_def return_def throw_def assign_def
        split: option.splits entry.splits)

lemma addNode_frame:
  "edgeWeights (snd (addNode n g)) = edgeWeights g"
  "edgeData (snd (addNode n g)) = edgeData g"
  by (simp_all add: addNode_def adjacent_def bind_def read_def return_def assign_def)

lemma push_frame:
  "edgeWeights (snd (push u a v g)) = edgeWeights g"
  "edgeData (snd (push u a v g)) = edgeData g"
  by (simp_all add: push_def throw_def assign_def split: entry.splits)

lemma addEdge_frame:
  "edgeWeights (snd (addEdge u v None None g)) = edgeWeights g"
  "edgeData (snd (addEdge u v None None g)) = edgeData g"
proof -
  have a: "snd (adjacent n h) = h" for n and h :: "'a graph" by (rule adjacent_state)
  have "edgeWeights (snd (addEdge u v None None g)) = edgeWeights g
      \<and> edgeData (snd (addEdge u v None None g)) = edgeData g"
    unfolding addEdge_def
    apply (simp add: bind_def return_def split: prod.splits sum.splits)
    apply (intro allI impI conjI)
    apply (metis addNode_frame push_frame a snd_conv)+
    done
  then show "edgeWeights (snd (addEdge u v None None g)) = edgeWeights g"
    "edgeData (snd (addEdge u v None None g)) = edgeData g" by simp_all
qed

lemma addEdge_outcome:
  "fst (addEdge u v w dt g) = Inl TypeError
   \<or> fst (addEdge u v w dt g) = Inr ()
     \<and> neighbours (snd (addEdge u v w dt g)) u = neighbours g u @ [v]"
proof -
  define g2 where "g2 = snd (addNode v (snd (addNode u g)))"
  define rest :: "(unit, 'a graph) prog" where
    "rest = bind (case w of Some w \<Rightarrow> setEdgeWeight u v w | None \<Rightarrow> return ()) (\<lambda>_.
        (case dt of Some x \<Rightarrow> setEdgeData u v x | None \<Rightarrow> return ()))"
  have rest: "fst (rest h) = Inr () \<and> edges (snd (rest h)) = edges h" for h
    by (cases w; cases dt)
       (simp_all add: rest_def bind_def return_def setEdgeWeight_def setEdgeData_def assign_def)
  have n2: "neighbours g2 m = neighbours g m" for m
    by (simp add: g2_def neighbours_addNode)
  have own: "DAList.lookup (edges g2) u = None \<Longrightarrow> u = ''__proto__''"
    by (auto simp: g2_def edges_addNode lookup_set_property split: if_splits)
  have run: "addEdge u v w dt g = bind (adjacent u) (\<lambda>a. bind (push u a v) (\<lambda>_. rest)) g2"
    unfolding addEdge_def g2_def rest_def
    using addNode_returns [of u g] addNode_returns [of v "snd (addNode u g)"]
    by (cases "addNode u g"; cases "addNode v (snd (addNode u g))") (simp add: bind_def)
  show ?thesis
  proof (cases "DAList.lookup (edges g2) u")
    case None
    with own have "get_property (edges g2) u = Prototype"
      by (simp add: get_property_def prototype_functions_def)
    then show ?thesis
      by (simp add: run adjacent_def bind_def read_def return_def entry_of_def
            push_def throw_def)
  next
    case (Some a)
    then have adj: "adjacent u g2 = (Inr a, g2)"
      by (simp add: adjacent_def bind_def read_def return_def get_property_def entry_of_def)
    show ?thesis
    proof (cases a)
      case (Array vs)
      with Some have "neighbours g2 u = vs" by (simp add: neighbours_lookup)
      with n2 have vs: "neighbours g u = vs" by simp
      define g3 where "g3 = g2\<lparr>edges := DAList.update u (Array (vs @ [v])) (edges g2)\<rparr>"
      from Some have push: "push u (Array vs) v g2 = (Inr (), g3)"
        by (simp add: push_def assign_def set_property_def g3_def)
      have r: "addEdge u v w dt g = rest g3"
        by (simp add: run bind_def adj Array push)
      have "neighbours g3 u = vs @ [v]"
        by (simp add: neighbours_lookup g3_def DAList.lookup_update)
      with rest [of g3] have "neighbours (snd (rest g3)) u = vs @ [v]"
        by (simp add: neighbours_lookup)
      with rest [of g3] show ?thesis
        by (simp add: r vs)
    next
      case (Function f)
      then show ?thesis by (simp add: run bind_def adj push_def throw_def)
    next
      case ObjectPrototype
      then show ?thesis by (simp add: run bind_def adj push_def throw_def)
    qed
  qed
qed

text \<open>
  The store after a sequence of calls on it, each of which has returned or thrown.
\<close>

definition after :: "'s \<Rightarrow> (unit, 's) prog list \<Rightarrow> 's" where
  "after s calls = fold (\<lambda>m s. snd (m s)) calls s"

lemma after_simps:
  "after s [] = s"
  "after s (m # ms) = after (snd (m s)) ms"
  by (simp_all add: after_def)

section \<open>Edge metadata outlives the edge\<close>

text \<open>
  C6.  \<^verbatim>\<open>removeEdge(u, v)\<close> leaves every stored weight and payload as it is, also when
  it throws, so \<^verbatim>\<open>getEdgeWeight(u, v)\<close> and \<^verbatim>\<open>getEdgeData(u, v)\<close> still answer what
  was set before the removal; and adding the edge again without a weight and without data
  leaves them as they are too, so that the edge that comes back, unless \<^verbatim>\<open>addEdge\<close>
  throws, has the weight and the payload set before.
\<close>

theorem removeEdge_keeps_weight_and_data:
  "edgeWeights (snd (removeEdge u v g)) = edgeWeights g
   \<and> edgeData (snd (removeEdge u v g)) = edgeData g
   \<and> fst (getEdgeWeight u v (after g [setEdgeWeight u v w, removeEdge u v])) = Inr w
   \<and> fst (getEdgeData u v (after g [setEdgeData u v dt, removeEdge u v])) = Inr dt
   \<and> fst (getEdgeWeight u v
            (after g [setEdgeWeight u v w, removeEdge u v, addEdge u v None None])) = Inr w
   \<and> fst (getEdgeData u v
            (after g [setEdgeData u v dt, removeEdge u v, addEdge u v None None])) = Inr dt
   \<and> (fst (addEdge u v None None (after g [setEdgeWeight u v w, removeEdge u v])) = Inl TypeError
      \<or> v \<in> set (neighbours
                 (after g [setEdgeWeight u v w, removeEdge u v, addEdge u v None None]) u))"
proof -
  have w: "edgeWeights (after g [setEdgeWeight u v w, removeEdge u v]) (encodeEdge u v) = Some w"
    by (simp add: after_simps removeEdge_frame) (simp add: setEdgeWeight_def assign_def)
  have d: "edgeData (after g [setEdgeData u v dt, removeEdge u v]) (encodeDataEdge u v) = Some dt"
    by (simp add: after_simps removeEdge_frame) (simp add: setEdgeData_def assign_def)
  have w': "edgeWeights (after g [setEdgeWeight u v w, removeEdge u v, addEdge u v None None])
      (encodeEdge u v) = Some w"
    by (simp add: after_simps removeEdge_frame addEdge_frame) (simp add: setEdgeWeight_def assign_def)
  have d': "edgeData (after g [setEdgeData u v dt, removeEdge u v, addEdge u v None None])
      (encodeDataEdge u v) = Some dt"
    by (simp add: after_simps removeEdge_frame addEdge_frame) (simp add: setEdgeData_def assign_def)
  have e: "fst (addEdge u v None None (after g [setEdgeWeight u v w, removeEdge u v])) = Inl TypeError
      \<or> v \<in> set (neighbours
                 (after g [setEdgeWeight u v w, removeEdge u v, addEdge u v None None]) u)"
    using addEdge_outcome [of u v None None "after g [setEdgeWeight u v w, removeEdge u v]"]
    by (auto simp: after_simps)
  show ?thesis
    using w d w' d' e
    by (simp add: removeEdge_frame getEdgeWeight_def getEdgeData_def bind_def read_def return_def)
qed

section \<open>The keys of edge weights and payloads\<close>

text \<open>
  The key of a pair is the concatenation of the two identifiers around a separator.  It
  tells two pairs apart when the first identifiers hold no \<^verbatim>\<open>|\<close>.
\<close>

lemma takeWhile_no_bar: "CHR ''|'' \<notin> set w \<Longrightarrow> takeWhile (\<lambda>c. c \<noteq> CHR ''|'') w = w"
  by (induction w) auto

lemma encodeEdge_inj:
  assumes "CHR ''|'' \<notin> set u" "CHR ''|'' \<notin> set u'" "encodeEdge u v = encodeEdge u' v'"
  shows "u = u' \<and> v = v'"
proof -
  from assms(3) have eq: "u @ CHR ''|'' # v = u' @ CHR ''|'' # v'"
    by (simp add: encodeEdge_def)
  then have "takeWhile (\<lambda>c. c \<noteq> CHR ''|'') (u @ CHR ''|'' # v)
      = takeWhile (\<lambda>c. c \<noteq> CHR ''|'') (u' @ CHR ''|'' # v')"
    by simp
  then have "u = u'"
    using assms(1,2) by (simp add: takeWhile_tail takeWhile_no_bar)
  with eq show ?thesis by simp
qed

lemma encodeDataEdge_inj:
  assumes "CHR ''|'' \<notin> set u" "CHR ''|'' \<notin> set u'"
    "encodeDataEdge u v = encodeDataEdge u' v'"
  shows "u = u' \<and> v = v'"
proof -
  from assms(3) have eq: "u @ CHR ''|'' # CHR ''|'' # v = u' @ CHR ''|'' # CHR ''|'' # v'"
    by (simp add: encodeDataEdge_def)
  then have "takeWhile (\<lambda>c. c \<noteq> CHR ''|'') (u @ CHR ''|'' # CHR ''|'' # v)
      = takeWhile (\<lambda>c. c \<noteq> CHR ''|'') (u' @ CHR ''|'' # CHR ''|'' # v')"
    by simp
  then have "u = u'"
    using assms(1,2) by (simp add: takeWhile_tail takeWhile_no_bar)
  with eq show ?thesis by simp
qed


text \<open>
  C7.  The claim that setting the weight (or the payload) of a pair leaves every other
  pair as it was fails when an identifier holds the separator: the pairs
  \<^verbatim>\<open>("a|b", "c")\<close> and \<^verbatim>\<open>("a", "b|c")\<close> have the same weight key, the pairs
  \<^verbatim>\<open>("a|", "b")\<close> and \<^verbatim>\<open>("a", "|b")\<close> the same payload key.  Setting the one on a new
  graph changes what the other reads.
\<close>

theorem edge_keys_collide:
  "(''a|b'', ''c'') \<noteq> (''a'', ''b|c'')
   \<and> fst (getEdgeWeight ''a'' ''b|c'' (empty_graph :: unit graph)) = Inr (Finite 1)
   \<and> fst (getEdgeWeight ''a'' ''b|c''
            (after (empty_graph :: unit graph) [setEdgeWeight ''a|b'' ''c'' (Finite 5)]))
       = Inr (Finite 5)
   \<and> (''a|'', ''b'') \<noteq> (''a'', ''|b'')
   \<and> fst (getEdgeData ''a'' ''|b'' (empty_graph :: unit graph)) = Inr EmptyRecord
   \<and> fst (getEdgeData ''a'' ''|b''
            (after (empty_graph :: unit graph) [setEdgeData ''a|'' ''b'' (Payload ())]))
       = Inr (Payload ())"
  by (simp add: getEdgeWeight_def setEdgeWeight_def getEdgeData_def setEdgeData_def
        encodeEdge_def encodeDataEdge_def empty_graph_def after_simps bind_def read_def
        return_def assign_def)

section \<open>Identifiers that name an inherited property\<close>

text \<open>
  C9.  The claim that no operation but \<^verbatim>\<open>shortestPath\<close> throws, and that a node
  without an adjacency entry has no neighbours and outdegree 0, fails for the identifiers
  that name a property of \<^verbatim>\<open>Object.prototype\<close>.  On a new graph
  \<^verbatim>\<open>adjacent("constructor")\<close> returns the inherited function and
  \<^verbatim>\<open>outdegree("constructor")\<close> its \<^verbatim>\<open>length\<close>; \<^verbatim>\<open>addEdge("constructor", "x")\<close> and
  \<^verbatim>\<open>removeEdge("toString", "x")\<close> throw; and once \<^verbatim>\<open>addNode("constructor")\<close> has
  stored that function as an adjacency entry, \<^verbatim>\<open>nodes\<close>, \<^verbatim>\<open>indegree\<close>,
  \<^verbatim>\<open>removeNode\<close>, \<^verbatim>\<open>serialize\<close> and the searches over all nodes throw.
\<close>

theorem inherited_names_are_not_unknown:
  "fst (adjacent ''constructor'' (empty_graph :: unit graph)) = Inr (Function ''constructor'')
   \<and> fst (outdegree ''constructor'' (empty_graph :: unit graph)) = Inr (Some 1)
   \<and> fst (addEdge ''constructor'' ''x'' None None (empty_graph :: unit graph)) = Inl TypeError
   \<and> fst (removeEdge ''toString'' ''x'' (empty_graph :: unit graph)) = Inl TypeError
   \<and> fst (addNode ''constructor'' (empty_graph :: unit graph)) = Inr ()
   \<and> fst (nodes (after (empty_graph :: unit graph) [addNode ''constructor''])) = Inl TypeError
   \<and> fst (indegree ''x'' (after (empty_graph :: unit graph) [addNode ''constructor'']))
       = Inl TypeError
   \<and> fst (removeNode ''x'' (after (empty_graph :: unit graph) [addNode ''constructor'']))
       = Inl TypeError
   \<and> fst (serialize (after (empty_graph :: unit graph) [addNode ''constructor'']))
       = Inl TypeError
   \<and> fst (depthFirstSearch None None (after (empty_graph :: unit graph) [addNode ''constructor'']))
       = Inl TypeError
   \<and> fst (topologicalSort None None (after (empty_graph :: unit graph) [addNode ''constructor'']))
       = Inl TypeError"
  by code_simp

section \<open>Reading leaves the store alone\<close>

definition abc_graph :: "unit graph" where
  "abc_graph =
     after empty_graph
       [addEdge ''A'' ''B'' None None, addEdge ''B'' ''C'' None None, addEdge ''A'' ''C'' None None]"

lemma edges_abc_graph:
  "DAList.impl_of (edges abc_graph)
   = [(''A'', Array [''B'', ''C'']), (''B'', Array [''C'']), (''C'', Array [])]"
  by code_simp

lemma neighbours_abc_graph:
  "neighbours abc_graph n
   = (if n = ''A'' then [''B'', ''C''] else if n = ''B'' then [''C''] else [])"
  by (simp add: neighbours_def adjacent_def bind_def read_def return_def get_property_def
        entry_of_def DAList.lookup.rep_eq edges_abc_graph split: option.splits)

text \<open>
  The example of the specification: the direct edge wins over the two-edge route.
\<close>

lemma shortestPath_example:
  "map_option fst (shortestPath ''A'' ''C'' abc_graph)
   = Some (Inr ([NodeId ''A'', NodeId ''C''], Finite 1))"
  by code_simp

text \<open>
  C10.  A call of \<^verbatim>\<open>nodes\<close>, \<^verbatim>\<open>adjacent\<close>, \<^verbatim>\<open>indegree\<close>, \<^verbatim>\<open>outdegree\<close>,
  \<^verbatim>\<open>depthFirstSearch\<close>, \<^verbatim>\<open>topologicalSort\<close> or \<^verbatim>\<open>serialize\<close>, whether it
  returns or throws, and a call of \<^verbatim>\<open>shortestPath\<close> that returns a path or throws,
  leaves the adjacency lists, the weights and the payloads as they were.
\<close>

theorem reads_leave_store:
  "snd (nodes g) = g
   \<and> snd (adjacent node g) = g
   \<and> snd (indegree node g) = g
   \<and> snd (outdegree node g) = g
   \<and> snd (depthFirstSearch sourceNodes includeSourceNodes g) = g
   \<and> snd (topologicalSort sourceNodes includeSourceNodes g) = g
   \<and> snd (serialize g) = g
   \<and> (\<forall>outcome g'. shortestPath s t g = Some (outcome, g') \<longrightarrow> g' = g)"
proof (intro conjI allI impI)
  show "snd (nodes g) = g"
    using keeps_state_nodes by (rule keeps_stateD)
  show "snd (adjacent node g) = g"
    using keeps_state_adjacent by (rule keeps_stateD)
  show "snd (indegree node g) = g"
    using keeps_state_indegree by (rule keeps_stateD)
  show "snd (outdegree node g) = g"
    using keeps_state_outdegree by (rule keeps_stateD)
  show "snd (depthFirstSearch sourceNodes includeSourceNodes g) = g"
    using keeps_state_depthFirstSearch by (rule keeps_stateD)
  show "snd (topologicalSort sourceNodes includeSourceNodes g) = g"
    using keeps_state_topologicalSort by (rule keeps_stateD)
  show "snd (serialize g) = g"
    using keeps_state_serialize by (rule keeps_stateD)
  show "g' = g" if "shortestPath s t g = Some (outcome, g')" for outcome g'
    using shortestPath_state [OF that] by simp
qed

theorem reads_leave_store_witness:
  "\<exists>outcome. shortestPath ''A'' ''C'' abc_graph = Some (outcome, abc_graph)"
proof -
  from shortestPath_example obtain outcome g' where
    s: "shortestPath ''A'' ''C'' abc_graph = Some (outcome, g')"
    by (cases "shortestPath ''A'' ''C'' abc_graph") auto
  with reads_leave_store [of abc_graph _ _ _ "''A''" "''C''"] have "g' = abc_graph"
    by blast
  with s show ?thesis by blast
qed

section \<open>Shortest paths through the empty identifier\<close>

text \<open>
  C1.  The claim that \<^verbatim>\<open>shortestPath\<close> returns a cheapest route whenever the weights
  are not negative, both nodes are members and a route exists fails on the graph with the
  one edge from the empty identifier to \<^verbatim>\<open>A\<close> (weight 1 by default): the loop of
  \<^verbatim>\<open>path\<close> stops at \<^verbatim>\<open>A\<close>, whose predecessor is the empty string, and the call
  throws \<^verbatim>\<open>No path found\<close>.
\<close>

theorem shortestPath_from_empty_id:
  "fst (addEdge '''' ''A'' None None (empty_graph :: unit graph)) = Inr ()
   \<and> fst (adjacent '''' (after (empty_graph :: unit graph) [addEdge '''' ''A'' None None]))
       = Inr (Array [''A''])
   \<and> fst (nodes (after (empty_graph :: unit graph) [addEdge '''' ''A'' None None]))
       = Inr ['''', ''A'']
   \<and> fst (getEdgeWeight '''' ''A'' (after (empty_graph :: unit graph) [addEdge '''' ''A'' None None]))
       = Inr (Finite 1)
   \<and> map_option fst (shortestPath '''' ''A''
        (after (empty_graph :: unit graph) [addEdge '''' ''A'' None None]))
       = Some (Inl NoPathFound)"
  by code_simp

text \<open>
  C5.  The claim that \<^verbatim>\<open>No path found\<close> is thrown exactly when no route exists fails
  on the graph with the edges from \<^verbatim>\<open>A\<close> to the empty identifier and from there to
  \<^verbatim>\<open>B\<close>: the route exists, the walk from \<^verbatim>\<open>B\<close> stops at once because the
  predecessor of \<^verbatim>\<open>B\<close> is the empty string, and the call throws.
\<close>

theorem shortestPath_through_empty_id:
  "fst (adjacent ''A'' (after (empty_graph :: unit graph)
          [addEdge ''A'' '''' None None, addEdge '''' ''B'' None None])) = Inr (Array [''''])
   \<and> fst (adjacent '''' (after (empty_graph :: unit graph)
          [addEdge ''A'' '''' None None, addEdge '''' ''B'' None None])) = Inr (Array [''B''])
   \<and> fst (nodes (after (empty_graph :: unit graph)
          [addEdge ''A'' '''' None None, addEdge '''' ''B'' None None])) = Inr [''A'', '''', ''B'']
   \<and> map_option fst (shortestPath ''A'' ''B'' (after (empty_graph :: unit graph)
          [addEdge ''A'' '''' None None, addEdge '''' ''B'' None None])) = Some (Inl NoPathFound)"
  by code_simp

section \<open>Unknown nodes in a shortest-path query\<close>

text \<open>
  C4.  The claim that \<^verbatim>\<open>shortestPath\<close> throws one of the two errors for an unknown
  node exactly when \<^verbatim>\<open>source\<close> or \<^verbatim>\<open>destination\<close> is not a node fails in both
  directions.  After \<^verbatim>\<open>addEdge("x", "__proto__")\<close> the identifier \<^verbatim>\<open>__proto__\<close> is in
  the adjacency list of \<^verbatim>\<open>x\<close>, yet as a destination it is answered with
  \<^verbatim>\<open>Destination node is not in the graph\<close>; and after \<^verbatim>\<open>addNode("constructor")\<close> a
  query for the unknown node \<^verbatim>\<open>zzz\<close> is answered with a \<^verbatim>\<open>TypeError\<close>.
\<close>

theorem shortestPath_unknown_node_inherited_name:
  "fst (addEdge ''x'' ''__proto__'' None None (empty_graph :: unit graph)) = Inr ()
   \<and> fst (adjacent ''x'' (after (empty_graph :: unit graph) [addEdge ''x'' ''__proto__'' None None]))
       = Inr (Array [''__proto__''])
   \<and> map_option fst (shortestPath ''x'' ''__proto__''
        (after (empty_graph :: unit graph) [addEdge ''x'' ''__proto__'' None None]))
       = Some (Inl DestinationNotInGraph)
   \<and> fst (addNode ''constructor'' (empty_graph :: unit graph)) = Inr ()
   \<and> map_option fst (shortestPath ''zzz'' ''zzz''
        (after (empty_graph :: unit graph) [addNode ''constructor'']))
       = Some (Inl TypeError)"
  by code_simp

section \<open>Serializing and deserializing\<close>

text \<open>
  C3.  The claim that \<^verbatim>\<open>deserialize(serialize(G))\<close> gives back the nodes, the adjacency
  lists, the weights and the payloads of every graph fails on the graph that
  \<^verbatim>\<open>addEdge("x", "constructor")\<close> builds: that call returns, having stored the inherited
  function as the adjacency entry of \<^verbatim>\<open>constructor\<close>, and \<^verbatim>\<open>serialize\<close> throws.
\<close>

theorem serialize_throws_on_inherited_name:
  "fst (addEdge ''x'' ''constructor'' None None (empty_graph :: unit graph)) = Inr ()
   \<and> fst (adjacent ''x'' (after (empty_graph :: unit graph) [addEdge ''x'' ''constructor'' None None]))
       = Inr (Array [''constructor''])
   \<and> fst (adjacent ''constructor''
            (after (empty_graph :: unit graph) [addEdge ''x'' ''constructor'' None None]))
       = Inr (Function ''constructor'')
   \<and> fst (serialize (after (empty_graph :: unit graph) [addEdge ''x'' ''constructor'' None None]))
       = Inl TypeError"
  by code_simp

section \<open>What a depth-first search visits, and in which order\<close>

text \<open>
  The edges of a graph, and the edges into nodes that are not marked: the search only
  goes along the latter.
\<close>

definition edge_rel :: "'d graph \<Rightarrow> (string \<times> string) set" where
  "edge_rel g = {(u, v). v \<in> set (neighbours g u)}"

definition fresh_edges :: "'d graph \<Rightarrow> string set \<Rightarrow> (string \<times> string) set" where
  "fresh_edges g visited = {(u, v). v \<in> set (neighbours g u) \<and> v \<notin> visited}"

text \<open>
  \<open>before y x l\<close>: an occurrence of \<open>y\<close> in \<open>l\<close> has \<open>x\<close> somewhere behind it.
\<close>

definition before :: "'a \<Rightarrow> 'a \<Rightarrow> 'a list \<Rightarrow> bool" where
  "before y x l = (\<exists>as bs. l = as @ y # bs \<and> x \<in> set bs)"

lemma before_appendI1: "before y x l \<Longrightarrow> before y x (l @ m)"
  by (fastforce simp: before_def)

lemma before_appendI2: "before y x m \<Longrightarrow> before y x (l @ m)"
  unfolding before_def by (metis append.assoc)

lemma before_appendI3: "y \<in> set l \<Longrightarrow> x \<in> set m \<Longrightarrow> before y x (l @ m)"
  unfolding before_def by (metis Un_iff append.assoc append_Cons set_append split_list)

lemma fresh_edges_mono: "A \<subseteq> B \<Longrightarrow> fresh_edges g B \<subseteq> fresh_edges g A"
  by (auto simp: fresh_edges_def)

lemma fresh_edges_edge_rel: "fresh_edges g A \<subseteq> edge_rel g"
  by (auto simp: fresh_edges_def edge_rel_def)

lemma fresh_rtrancl_mono: "A \<subseteq> B \<Longrightarrow> (r, x) \<in> (fresh_edges g B)\<^sup>* \<Longrightarrow> (r, x) \<in> (fresh_edges g A)\<^sup>*"
  using rtrancl_mono [OF fresh_edges_mono] by blast

lemma fresh_rtrancl_edge: "(r, x) \<in> (fresh_edges g B)\<^sup>* \<Longrightarrow> (r, x) \<in> (edge_rel g)\<^sup>*"
  using rtrancl_mono [OF fresh_edges_edge_rel] by blast

text \<open>
  What a run from the state \<open>s\<close> over the start nodes \<open>starts\<close> has done when it ends in
  \<open>s'\<close>: it has appended a list \<open>new\<close> of distinct nodes that were not marked and has
  marked them; the start nodes and the neighbours of the new nodes are marked; a new node
  is reached from an unmarked start node through nodes that were not marked; and a
  neighbour \<open>y\<close> of a new node \<open>x\<close> was marked before, or finished before \<open>x\<close>, or is an
  ancestor of \<open>x\<close>.
\<close>

definition dfs_post ::
  "'d graph \<Rightarrow> string set \<Rightarrow> string set \<times> string list \<Rightarrow> string set \<times> string list \<Rightarrow> bool" where
  "dfs_post g starts s s' =
     (\<exists>new. snd s' = snd s @ new \<and> fst s' = fst s \<union> set new \<and> distinct new
        \<and> set new \<inter> fst s = {} \<and> starts \<subseteq> fst s'
        \<and> (\<forall>x\<in>set new. set (neighbours g x) \<subseteq> fst s')
        \<and> (\<forall>x\<in>set new. \<exists>r\<in>starts. r \<notin> fst s \<and> (r, x) \<in> (fresh_edges g (fst s))\<^sup>*)
        \<and> (\<forall>x\<in>set new. \<forall>y\<in>set (neighbours g x).
              y \<in> fst s \<or> before y x new \<or> (y, x) \<in> (edge_rel g)\<^sup>*))"

lemma dfs_postI:
  assumes "snd s' = snd s @ new" "fst s' = fst s \<union> set new" "distinct new"
    "set new \<inter> fst s = {}" "starts \<subseteq> fst s'"
    "\<And>x. x \<in> set new \<Longrightarrow> set (neighbours g x) \<subseteq> fst s'"
    "\<And>x. x \<in> set new \<Longrightarrow> \<exists>r\<in>starts. r \<notin> fst s \<and> (r, x) \<in> (fresh_edges g (fst s))\<^sup>*"
    "\<And>x y. x \<in> set new \<Longrightarrow> y \<in> set (neighbours g x) \<Longrightarrow>
        y \<in> fst s \<or> before y x new \<or> (y, x) \<in> (edge_rel g)\<^sup>*"
  shows "dfs_post g starts s s'"
  unfolding dfs_post_def
  apply (rule exI [of _ new])
  apply (intro conjI ballI)
  using assms apply simp_all
  done

lemma dfs_postE:
  assumes "dfs_post g starts s s'"
  obtains new where "snd s' = snd s @ new" "fst s' = fst s \<union> set new" "distinct new"
    "set new \<inter> fst s = {}" "starts \<subseteq> fst s'"
    "\<And>x. x \<in> set new \<Longrightarrow> set (neighbours g x) \<subseteq> fst s'"
    "\<And>x. x \<in> set new \<Longrightarrow> \<exists>r\<in>starts. r \<notin> fst s \<and> (r, x) \<in> (fresh_edges g (fst s))\<^sup>*"
    "\<And>x y. x \<in> set new \<Longrightarrow> y \<in> set (neighbours g x) \<Longrightarrow>
        y \<in> fst s \<or> before y x new \<or> (y, x) \<in> (edge_rel g)\<^sup>*"
proof -
  from assms obtain new where
    "snd s' = snd s @ new \<and> fst s' = fst s \<union> set new \<and> distinct new
        \<and> set new \<inter> fst s = {} \<and> starts \<subseteq> fst s'
        \<and> (\<forall>x\<in>set new. set (neighbours g x) \<subseteq> fst s')
        \<and> (\<forall>x\<in>set new. \<exists>r\<in>starts. r \<notin> fst s \<and> (r, x) \<in> (fresh_edges g (fst s))\<^sup>*)
        \<and> (\<forall>x\<in>set new. \<forall>y\<in>set (neighbours g x).
              y \<in> fst s \<or> before y x new \<or> (y, x) \<in> (edge_rel g)\<^sup>*)"
    unfolding dfs_post_def ..
  then show thesis
    by (elim conjE, intro that [of new]) blast+
qed

lemma dfs_post_skip: "node \<in> visited \<Longrightarrow> dfs_post g {node} (visited, nodeList) (visited, nodeList)"
  by (simp add: dfs_post_def)

lemma dfs_post_nil: "dfs_post g {} s s"
  by (simp add: dfs_post_def)

lemma dfs_post_visit:
  assumes n: "node \<notin> visited"
    and inner: "dfs_post g (set (neighbours g node)) (insert node visited, nodeList) (visited', nodeList')"
  shows "dfs_post g {node} (visited, nodeList) (visited', nodeList' @ [node])"
proof -
  from inner obtain new where
    out: "nodeList' = nodeList @ new" and
    vis: "visited' = insert node visited \<union> set new" and
    dist: "distinct new" and
    disj: "set new \<inter> insert node visited = {}" and
    starts: "set (neighbours g node) \<subseteq> visited'" and
    closed: "\<And>x. x \<in> set new \<Longrightarrow> set (neighbours g x) \<subseteq> visited'" and
    reach: "\<And>x. x \<in> set new \<Longrightarrow> \<exists>r\<in>set (neighbours g node). r \<notin> insert node visited
               \<and> (r, x) \<in> (fresh_edges g (insert node visited))\<^sup>*" and
    order: "\<And>x y. x \<in> set new \<Longrightarrow> y \<in> set (neighbours g x) \<Longrightarrow>
              y \<in> insert node visited \<or> before y x new \<or> (y, x) \<in> (edge_rel g)\<^sup>*"
    by (elim dfs_postE) (simp only: fst_conv snd_conv)
  have reach_node: "(node, x) \<in> (fresh_edges g visited)\<^sup>*" if "x \<in> set new" for x
  proof -
    from reach [OF that] obtain r where r: "r \<in> set (neighbours g node)" "r \<notin> insert node visited"
      "(r, x) \<in> (fresh_edges g (insert node visited))\<^sup>*" by blast
    then have "(node, r) \<in> fresh_edges g visited"
      by (simp add: fresh_edges_def)
    moreover have "(r, x) \<in> (fresh_edges g visited)\<^sup>*"
      by (rule fresh_rtrancl_mono [OF _ r(3)]) auto
    ultimately show ?thesis by (rule converse_rtrancl_into_rtrancl)
  qed
  show ?thesis
  proof (rule dfs_postI [where new = "new @ [node]"], goal_cases)
    case 1
    show ?case using out by simp
  next
    case 2
    show ?case using vis by auto
  next
    case 3
    show ?case using dist disj by auto
  next
    case 4
    show ?case using disj n by auto
  next
    case 5
    show ?case using vis by simp
  next
    case (6 x)
    then show ?case using closed [of x] starts by auto
  next
    case (7 x)
    then have "(node, x) \<in> (fresh_edges g visited)\<^sup>*"
      using reach_node [of x] by auto
    with n show ?case by simp
  next
    case (8 x y)
    show ?case
    proof (cases "x = node")
      case True
      with 8(2) starts vis have "y = node \<or> y \<in> visited \<or> y \<in> set new" by auto
      then show ?thesis
        using True before_appendI3 [of y new node "[node]"] by auto
    next
      case False
      with 8 have x: "x \<in> set new" by simp
      from order [OF x 8(2)]
      have "y = node \<or> y \<in> visited \<or> before y x new \<or> (y, x) \<in> (edge_rel g)\<^sup>*"
        by auto
      moreover have "(node, x) \<in> (edge_rel g)\<^sup>*"
        using reach_node [OF x] by (rule fresh_rtrancl_edge)
      ultimately show ?thesis
        using before_appendI1 [of y x new "[node]"] by auto
    qed
  qed
qed

lemma dfs_post_seq:
  assumes a: "dfs_post g A s s1" and b: "dfs_post g B s1 s2"
  shows "dfs_post g (A \<union> B) s s2"
proof -
  from a obtain new1 where
    a1: "snd s1 = snd s @ new1" and a2: "fst s1 = fst s \<union> set new1" and
    a3: "distinct new1" "set new1 \<inter> fst s = {}" and a4: "A \<subseteq> fst s1" and
    a5: "\<And>x. x \<in> set new1 \<Longrightarrow> set (neighbours g x) \<subseteq> fst s1" and
    a6: "\<And>x. x \<in> set new1 \<Longrightarrow> \<exists>r\<in>A. r \<notin> fst s \<and> (r, x) \<in> (fresh_edges g (fst s))\<^sup>*" and
    a7: "\<And>x y. x \<in> set new1 \<Longrightarrow> y \<in> set (neighbours g x) \<Longrightarrow>
              y \<in> fst s \<or> before y x new1 \<or> (y, x) \<in> (edge_rel g)\<^sup>*"
    by (rule dfs_postE) (rule that)
  from b obtain new2 where
    b1: "snd s2 = snd s1 @ new2" and b2: "fst s2 = fst s1 \<union> set new2" and
    b3: "distinct new2" "set new2 \<inter> fst s1 = {}" and b4: "B \<subseteq> fst s2" and
    b5: "\<And>x. x \<in> set new2 \<Longrightarrow> set (neighbours g x) \<subseteq> fst s2" and
    b6: "\<And>x. x \<in> set new2 \<Longrightarrow> \<exists>r\<in>B. r \<notin> fst s1 \<and> (r, x) \<in> (fresh_edges g (fst s1))\<^sup>*" and
    b7: "\<And>x y. x \<in> set new2 \<Longrightarrow> y \<in> set (neighbours g x) \<Longrightarrow>
              y \<in> fst s1 \<or> before y x new2 \<or> (y, x) \<in> (edge_rel g)\<^sup>*"
    by (rule dfs_postE) (rule that)
  have sub: "fst s \<subseteq> fst s1" using a2 by auto
  show ?thesis
  proof (rule dfs_postI [where new = "new1 @ new2"], goal_cases)
    case 1
    show ?case using a1 b1 by simp
  next
    case 2
    show ?case using a2 b2 by auto
  next
    case 3
    show ?case using a2 a3 b3 by auto
  next
    case 4
    show ?case using a2 a3 b3 by auto
  next
    case 5
    show ?case using a4 b4 b2 by auto
  next
    case (6 x)
    then show ?case using a5 [of x] b5 [of x] b2 by auto
  next
    case (7 x)
    show ?case
    proof (cases "x \<in> set new1")
      case True
      from a6 [OF this] show ?thesis by blast
    next
      case False
      with 7 have "x \<in> set new2" by simp
      from b6 [OF this] obtain r where
        r: "r \<in> B" "r \<notin> fst s1" "(r, x) \<in> (fresh_edges g (fst s1))\<^sup>*"
        by blast
      from r(2) sub have "r \<notin> fst s" by auto
      moreover have "(r, x) \<in> (fresh_edges g (fst s))\<^sup>*"
        by (rule fresh_rtrancl_mono [OF sub r(3)])
      ultimately show ?thesis using r(1) by blast
    qed
  next
    case (8 x y)
    show ?case
    proof (cases "x \<in> set new1")
      case True
      from a7 [OF this 8(2)] show ?thesis using before_appendI1 [of y x new1 new2] by blast
    next
      case False
      with 8 have x: "x \<in> set new2" by simp
      from b7 [OF x 8(2)]
      have "y \<in> fst s \<or> y \<in> set new1 \<or> before y x new2 \<or> (y, x) \<in> (edge_rel g)\<^sup>*"
        using a2 by auto
      then show ?thesis
        using x before_appendI2 [of y x new2 new1] before_appendI3 [of y new1 x new2] by blast
    qed
  qed
qed

lemma dfs_post_both:
  "DFSVisit node vars g = (Inr vars', g') \<Longrightarrow>
   dfs_post g {node} (marked (fst vars), snd vars) (marked (fst vars'), snd vars')"
  "forEach_DFSVisit vs vars g = (Inr vars', g') \<Longrightarrow>
   dfs_post g (set vs) (marked (fst vars), snd vars) (marked (fst vars'), snd vars')"
proof (induction node vars g and vs vars g arbitrary: vars' g' and vars' g'
       rule: DFSVisit_forEach_DFSVisit.induct)
  case (1 node visited nodeList g)
  show ?case
  proof (cases "is_visited visited node")
    case True
    with 1(2) show ?thesis by (auto simp: dfs_post_skip marked_def)
  next
    case False
    with 1(2) obtain vs g1 visited1 nodeList1 g2 where
      a: "adjacent node g = (Inr (Array vs), g1)"
      and r: "forEach_DFSVisit vs (set_property node True visited, nodeList) g1
              = (Inr (visited1, nodeList1), g2)"
      and v: "vars' = (visited1, nodeList1 @ [node])"
      by (auto split: prod.splits sum.splits entry.splits)
    from adjacent_Array [OF a] have vs: "vs = neighbours g node" and g1: "g1 = g" by simp_all
    from 1(1) [OF False a [symmetric] refl refl r]
    have "dfs_post g1 (set vs) (marked (set_property node True visited), nodeList)
            (marked visited1, nodeList1)"
      by simp
    then have "dfs_post g (set (neighbours g node)) (insert node (marked visited), nodeList)
            (marked visited1, nodeList1)"
      by (simp add: vs g1 marked_set_property)
    moreover from False have "node \<notin> marked visited" by (simp add: marked_def)
    ultimately have "dfs_post g {node} (marked visited, nodeList) (marked visited1, nodeList1 @ [node])"
      by (rule dfs_post_visit [rotated])
    then show ?thesis by (simp add: v)
  qed
next
  case (2 vars g)
  then show ?case by (auto simp: dfs_post_nil)
next
  case (3 v vs vars g)
  from 3(3) obtain vars1 g1 where
    a: "DFSVisit v vars g = (Inr vars1, g1)"
    and r: "forEach_DFSVisit vs vars1 g1 = (Inr vars', g')"
    by (auto split: prod.splits sum.splits)
  from DFSVisit_state(1) [of v vars g] a have g1: "g1 = g" by simp
  from 3(1) [OF a]
  have "dfs_post g {v} (marked (fst vars), snd vars) (marked (fst vars1), snd vars1)" .
  moreover from 3(2) [OF a [symmetric] refl r]
  have "dfs_post g (set vs) (marked (fst vars1), snd vars1) (marked (fst vars'), snd vars')"
    by (simp add: g1)
  ultimately have "dfs_post g ({v} \<union> set vs) (marked (fst vars), snd vars)
      (marked (fst vars'), snd vars')"
    by (rule dfs_post_seq)
  then show ?case by simp
qed

text \<open>
  The keys under which a new object already reads as truthy, the source nodes of a call,
  and what is reachable from a set of nodes.
\<close>

definition inherited_keys :: "string set" where
  "inherited_keys = marked DAList.empty"

definition chosen :: "string list option \<Rightarrow> 'd graph \<Rightarrow> string list" where
  "chosen sourceNodes g =
     (case sourceNodes of
        Some ns \<Rightarrow> ns
      | None \<Rightarrow> (case fst (nodes g) of Inr ns \<Rightarrow> ns | Inl _ \<Rightarrow> []))"

definition reachable :: "'d graph \<Rightarrow> string set \<Rightarrow> string set" where
  "reachable g S = (edge_rel g)\<^sup>* `` S"

text \<open>
  \<open>precedes u v l\<close>: the first \<open>u\<close> in \<open>l\<close> has a \<open>v\<close> behind it.
\<close>

fun precedes :: "'a \<Rightarrow> 'a \<Rightarrow> 'a list \<Rightarrow> bool" where
  "precedes u v [] = False"
| "precedes u v (x # xs) = (if x = u then v \<in> set xs else precedes u v xs)"

lemma precedes_append:
  "precedes u v (xs @ ys) = (if u \<in> set xs then precedes u v xs \<or> v \<in> set ys else precedes u v ys)"
  by (induction xs) auto

lemma before_precedes_rev: "before y x l \<Longrightarrow> precedes x y (rev l)"
  by (auto simp: before_def precedes_append)

lemma inherited_keys_eq:
  "inherited_keys = insert ''__proto__'' (fst ` set prototype_functions)"
proof -
  have "is_visited DAList.empty k \<longleftrightarrow> k = ''__proto__'' \<or> k \<in> dom (map_of prototype_functions)"
    for k
    by (auto simp: is_visited_def get_property_def DAList.lookup.rep_eq DAList.empty.rep_eq
          split: option.splits)
  then show ?thesis
    by (auto simp: inherited_keys_def marked_def dom_map_of_conv_image_fst)
qed

lemma mark_sources:
  "forEach srcs (\<lambda>node (visited, nodeList). return (set_property node True visited, nodeList))
     (visited, nodeList) g
   = (Inr (fold (\<lambda>node. set_property node True) srcs visited, nodeList), g)"
  by (induction srcs arbitrary: visited) (simp_all add: return_def bind_def)

lemma marked_fold:
  "marked (fold (\<lambda>node. set_property node True) srcs visited) = marked visited \<union> set srcs"
  by (induction srcs arbitrary: visited) (auto simp: marked_set_property)

lemma forEach_DFSVisit_append:
  "forEach_DFSVisit (xs @ ys) vars g =
     (case forEach_DFSVisit xs vars g of
        (Inl e, g') \<Rightarrow> (Inl e, g')
      | (Inr vars', g') \<Rightarrow> forEach_DFSVisit ys vars' g')"
  by (induction xs arbitrary: vars g) (auto split: prod.splits sum.splits)

lemma forEach_neighbours:
  assumes "forEach srcs (\<lambda>node vars.
             bind (adjacent node) (\<lambda>a.
               case a of Array vs \<Rightarrow> forEach_DFSVisit vs vars | _ \<Rightarrow> throw TypeError)) vars g
           = (Inr vars', g')"
  shows "forEach_DFSVisit (concat (map (neighbours g) srcs)) vars g = (Inr vars', g')"
  using assms
proof (induction srcs arbitrary: vars)
  case Nil
  then show ?case by (simp add: return_def)
next
  case (Cons s srcs)
  let ?f = "\<lambda>node vars.
             bind (adjacent node) (\<lambda>a.
               case a of Array vs \<Rightarrow> forEach_DFSVisit vs vars | _ \<Rightarrow> throw TypeError)"
  from Cons.prems obtain vars1 g1 where
    a: "?f s vars g = (Inr vars1, g1)" and r: "forEach srcs ?f vars1 g1 = (Inr vars', g')"
    by (auto simp: bind_def [of "?f s vars"] split: prod.splits sum.splits)
  from a obtain vs g0 where
    b: "adjacent s g = (Inr (Array vs), g0)" and c: "forEach_DFSVisit vs vars g0 = (Inr vars1, g1)"
    by (auto simp: bind_def throw_def split: prod.splits sum.splits entry.splits)
  from adjacent_Array [OF b] have vs: "vs = neighbours g s" and g0: "g0 = g" by simp_all
  from DFSVisit_state(2) [of vs vars g0] c g0 have g1: "g1 = g" by simp
  from Cons.IH [of vars1] r g1
  have "forEach_DFSVisit (concat (map (neighbours g) srcs)) vars1 g = (Inr vars', g')" by simp
  with c show ?case by (simp add: forEach_DFSVisit_append vs g0 g1)
qed

lemma chosen_returned:
  "(case ss of None \<Rightarrow> nodes | Some ns \<Rightarrow> return ns) g = (Inr srcs, g') \<Longrightarrow>
   srcs = chosen ss g \<and> g' = g"
  using keeps_stateD [OF keeps_state_nodes, of g]
  by (auto simp: chosen_def return_def split: option.splits)

lemma depthFirstSearch_include:
  assumes "depthFirstSearch ss inc g = (Inr out, g')" "inc \<noteq> Some False"
  obtains visited where
    "forEach_DFSVisit (chosen ss g) (DAList.empty, []) g = (Inr (visited, out), g)"
proof -
  from assms(2) have i: "(case inc of None \<Rightarrow> True | Some b \<Rightarrow> b)" by (cases inc) auto
  from assms(1) obtain srcs g1 visited g2 where
    a: "(case ss of None \<Rightarrow> nodes | Some ns \<Rightarrow> return ns) g = (Inr srcs, g1)"
    and r: "forEach_DFSVisit srcs (DAList.empty, []) g1 = (Inr (visited, out), g2)"
    unfolding depthFirstSearch_def
    by (auto simp: i bind_def return_def split: prod.splits sum.splits)
  from chosen_returned [OF a] have "srcs = chosen ss g" "g1 = g" by simp_all
  moreover from DFSVisit_state(2) [of srcs "(DAList.empty, [])" g1] r have "g2 = g1" by simp
  ultimately show thesis using r by (intro that [of visited]) simp
qed

lemma depthFirstSearch_exclude:
  assumes "depthFirstSearch ss (Some False) g = (Inr out, g')"
  obtains visited0 visited where
    "marked visited0 = inherited_keys \<union> set (chosen ss g)"
    "forEach_DFSVisit (concat (map (neighbours g) (chosen ss g))) (visited0, []) g
       = (Inr (visited, out), g)"
proof -
  let ?f = "\<lambda>node vars.
             bind (adjacent node) (\<lambda>a.
               case a of Array vs \<Rightarrow> forEach_DFSVisit vs vars | _ \<Rightarrow> throw TypeError)"
  from assms obtain srcs g1 visited g2 where
    a: "(case ss of None \<Rightarrow> nodes | Some ns \<Rightarrow> return ns) g = (Inr srcs, g1)"
    and r: "forEach srcs ?f (fold (\<lambda>node. set_property node True) srcs DAList.empty, []) g1
            = (Inr (visited, out), g2)"
    unfolding depthFirstSearch_def
    by (auto simp: bind_def return_def mark_sources split: prod.splits sum.splits)
  from chosen_returned [OF a] have s: "srcs = chosen ss g" "g1 = g" by simp_all
  from forEach_neighbours [OF r]
  have run: "forEach_DFSVisit (concat (map (neighbours g1) srcs))
      (fold (\<lambda>node. set_property node True) srcs DAList.empty, []) g1 = (Inr (visited, out), g2)" .
  with DFSVisit_state(2) [of "concat (map (neighbours g1) srcs)"
      "(fold (\<lambda>node. set_property node True) srcs DAList.empty, [])" g1]
  have "g2 = g1" by simp
  with run s show thesis
    by (intro that [of "fold (\<lambda>node. set_property node True) srcs DAList.empty" visited])
       (simp_all add: marked_fold inherited_keys_def)
qed

lemma run_facts:
  assumes "forEach_DFSVisit starts (visited0, []) g = (Inr (visited, out), g')"
  shows "distinct out" "set out \<inter> marked visited0 = {}"
    "set starts \<subseteq> marked visited0 \<union> set out"
    "\<And>x. x \<in> set out \<Longrightarrow> set (neighbours g x) \<subseteq> marked visited0 \<union> set out"
    "\<And>x. x \<in> set out \<Longrightarrow>
       \<exists>r\<in>set starts. r \<notin> marked visited0 \<and> (r, x) \<in> (fresh_edges g (marked visited0))\<^sup>*"
    "\<And>x y. x \<in> set out \<Longrightarrow> y \<in> set (neighbours g x) \<Longrightarrow>
        y \<in> marked visited0 \<or> before y x out \<or> (y, x) \<in> (edge_rel g)\<^sup>*"
proof -
  define s0 where "s0 = (marked visited0, [] :: string list)"
  define s1 where "s1 = (marked visited, out)"
  have "dfs_post g (set starts) s0 s1"
    unfolding s0_def s1_def using dfs_post_both(2) [OF assms] by simp
  then obtain new where
    n: "snd s1 = snd s0 @ new"
      "fst s1 = fst s0 \<union> set new"
      "distinct new" "set new \<inter> fst s0 = {}"
      "set starts \<subseteq> fst s1"
      "\<And>x. x \<in> set new \<Longrightarrow> set (neighbours g x) \<subseteq> fst s1"
      "\<And>x. x \<in> set new \<Longrightarrow> \<exists>r\<in>set starts. r \<notin> fst s0 \<and> (r, x) \<in> (fresh_edges g (fst s0))\<^sup>*"
      "\<And>x y. x \<in> set new \<Longrightarrow> y \<in> set (neighbours g x) \<Longrightarrow>
        y \<in> fst s0 \<or> before y x new \<or> (y, x) \<in> (edge_rel g)\<^sup>*"
    by (rule dfs_postE) (rule that)
  have m: "fst s0 = marked visited0" by (simp add: s0_def)
  from n(1) have eq: "new = out" by (simp add: s0_def s1_def)
  show "distinct out" using n(3) eq by simp
  show "set out \<inter> marked visited0 = {}" using n(4) eq m by simp
  show "set starts \<subseteq> marked visited0 \<union> set out" using n(5) n(2) eq m by simp
  show "set (neighbours g x) \<subseteq> marked visited0 \<union> set out" if "x \<in> set out" for x
    using n(6) [of x] n(2) eq m that by simp
  show "\<exists>r\<in>set starts. r \<notin> marked visited0 \<and> (r, x) \<in> (fresh_edges g (marked visited0))\<^sup>*"
    if "x \<in> set out" for x
    using n(7) [of x] eq m that by simp
  show "y \<in> marked visited0 \<or> before y x out \<or> (y, x) \<in> (edge_rel g)\<^sup>*"
    if "x \<in> set out" "y \<in> set (neighbours g x)" for x y
    using n(8) [of x y] eq m that by simp
qed

text \<open>
  Either way the search is one run over a list of start nodes from a set of marked nodes.
\<close>

lemma depthFirstSearch_run:
  assumes "depthFirstSearch ss inc g = (Inr out, g')"
  obtains starts visited0 visited where
    "forEach_DFSVisit starts (visited0, []) g = (Inr (visited, out), g)"
    "set starts \<subseteq> reachable g (set (chosen ss g))"
proof (cases "inc = Some False")
  case True
  with assms obtain visited0 visited where
    "forEach_DFSVisit (concat (map (neighbours g) (chosen ss g))) (visited0, []) g
       = (Inr (visited, out), g)"
    by (auto elim: depthFirstSearch_exclude)
  moreover have "set (concat (map (neighbours g) (chosen ss g))) \<subseteq> reachable g (set (chosen ss g))"
    by (auto simp: reachable_def edge_rel_def)
  ultimately show ?thesis by (rule that)
next
  case False
  with assms obtain visited where
    "forEach_DFSVisit (chosen ss g) (DAList.empty, []) g = (Inr (visited, out), g)"
    by (auto elim: depthFirstSearch_include)
  moreover have "set (chosen ss g) \<subseteq> reachable g (set (chosen ss g))"
    by (auto simp: reachable_def)
  ultimately show ?thesis by (rule that)
qed

lemma distinct_depthFirstSearch:
  assumes "depthFirstSearch ss inc g = (Inr out, g')"
  shows "distinct out"
proof -
  from assms obtain starts visited0 visited where
    "forEach_DFSVisit starts (visited0, []) g = (Inr (visited, out), g)"
    by (rule depthFirstSearch_run)
  from run_facts(1) [OF this] show ?thesis .
qed

lemma reachable_step: "x \<in> reachable g S \<Longrightarrow> (x, y) \<in> (edge_rel g)\<^sup>* \<Longrightarrow> y \<in> reachable g S"
  by (auto simp: reachable_def intro: rtrancl_trans)

lemma depthFirstSearch_reachable:
  assumes "depthFirstSearch ss inc g = (Inr out, g')"
  shows "set out \<subseteq> reachable g (set (chosen ss g))"
proof
  fix x assume x: "x \<in> set out"
  from assms obtain starts visited0 visited where
    run: "forEach_DFSVisit starts (visited0, []) g = (Inr (visited, out), g)"
    and starts: "set starts \<subseteq> reachable g (set (chosen ss g))"
    by (rule depthFirstSearch_run)
  from run_facts(5) [OF run x] obtain r where
    "r \<in> set starts" "(r, x) \<in> (fresh_edges g (marked visited0))\<^sup>*" by blast
  then show "x \<in> reachable g (set (chosen ss g))"
    using starts reachable_step [of r g _ x] fresh_rtrancl_edge [of r x g "marked visited0"] by blast
qed

lemma depthFirstSearch_postorder:
  assumes d: "depthFirstSearch ss inc g = (Inr out, g')"
    and acyc: "\<And>x. x \<in> reachable g (set (chosen ss g)) \<Longrightarrow> (x, x) \<notin> (edge_rel g)\<^sup>+"
    and e: "v \<in> set (neighbours g u)"
    and u: "u \<in> set out" and v: "v \<in> set out"
  shows "before v u out"
proof -
  from d obtain starts visited0 visited where
    run: "forEach_DFSVisit starts (visited0, []) g = (Inr (visited, out), g)"
    by (rule depthFirstSearch_run)
  from run_facts(6) [OF run u e]
  have "v \<in> marked visited0 \<or> before v u out \<or> (v, u) \<in> (edge_rel g)\<^sup>*" .
  moreover have "v \<notin> marked visited0"
    using run_facts(2) [OF run] v by auto
  moreover have "(v, u) \<notin> (edge_rel g)\<^sup>*"
  proof
    assume "(v, u) \<in> (edge_rel g)\<^sup>*"
    moreover have "(u, v) \<in> edge_rel g" using e by (simp add: edge_rel_def)
    ultimately have "(u, u) \<in> (edge_rel g)\<^sup>+" by (rule rtrancl_into_trancl2 [rotated])
    moreover have "u \<in> reachable g (set (chosen ss g))"
      using depthFirstSearch_reachable [OF d] u by blast
    ultimately show False using acyc by blast
  qed
  ultimately show ?thesis by blast
qed

text \<open>
  C2.  \<^verbatim>\<open>topologicalSort\<close> returns what \<^verbatim>\<open>depthFirstSearch\<close> returns for the same
  arguments, reversed, and throws what it throws; and when no node reachable from the
  chosen source nodes lies on a cycle, every edge \<open>(u, v)\<close> with both ends in the result
  has \<open>u\<close> before \<open>v\<close> there.
\<close>

theorem topologicalSort_order:
  "topologicalSort ss inc g =
     (case depthFirstSearch ss inc g of
        (Inl e, g') \<Rightarrow> (Inl e, g')
      | (Inr nodeList, g') \<Rightarrow> (Inr (rev nodeList), g'))
   \<and> (\<forall>sorted. fst (topologicalSort ss inc g) = Inr sorted \<longrightarrow>
        (\<forall>x\<in>reachable g (set (chosen ss g)). (x, x) \<notin> (edge_rel g)\<^sup>+) \<longrightarrow>
        (\<forall>u v. v \<in> set (neighbours g u) \<and> u \<in> set sorted \<and> v \<in> set sorted
              \<longrightarrow> precedes u v sorted))"
proof (intro conjI impI allI)
  show "topologicalSort ss inc g =
     (case depthFirstSearch ss inc g of
        (Inl e, g') \<Rightarrow> (Inl e, g')
      | (Inr nodeList, g') \<Rightarrow> (Inr (rev nodeList), g'))"
    by (simp add: topologicalSort_def bind_def return_def split: prod.splits sum.splits)
next
  fix sorted u v
  assume t: "fst (topologicalSort ss inc g) = Inr sorted"
    and acyc: "\<forall>x\<in>reachable g (set (chosen ss g)). (x, x) \<notin> (edge_rel g)\<^sup>+"
    and uv: "v \<in> set (neighbours g u) \<and> u \<in> set sorted \<and> v \<in> set sorted"
  from t obtain out g' where d: "depthFirstSearch ss inc g = (Inr out, g')"
    and s: "sorted = rev out"
    by (auto simp: topologicalSort_def bind_def return_def split: prod.splits sum.splits)
  from acyc uv have "before v u out"
    by (intro depthFirstSearch_postorder [OF d]) (auto simp: s)
  then show "precedes u v sorted"
    by (simp add: s before_precedes_rev)
qed

theorem topologicalSort_order_witness:
  "''C'' \<in> set (neighbours abc_graph ''A'')
   \<and> fst (topologicalSort None None abc_graph) = Inr [''A'', ''B'', ''C'']
   \<and> precedes ''A'' ''C'' [''A'', ''B'', ''C'']"
proof -
  define rank :: "string \<Rightarrow> nat" where
    "rank n = (if n = ''A'' then 0 else if n = ''B'' then 1 else 2)" for n
  have "edge_rel abc_graph \<subseteq> {(a, b). rank a < rank b}"
    by (auto simp: edge_rel_def neighbours_abc_graph rank_def split: if_splits)
  then have "(edge_rel abc_graph)\<^sup>+ \<subseteq> {(a, b). rank a < rank b}\<^sup>+"
    by (rule trancl_mono_subset)
  moreover have "trans {(a, b). rank a < rank b}"
    by (auto simp: trans_def)
  ultimately have "(edge_rel abc_graph)\<^sup>+ \<subseteq> {(a, b). rank a < rank b}"
    by simp
  then have acyc: "\<forall>x\<in>reachable abc_graph (set (chosen None abc_graph)).
      (x, x) \<notin> (edge_rel abc_graph)\<^sup>+"
    by auto
  have t: "fst (topologicalSort None None abc_graph) = Inr [''A'', ''B'', ''C'']"
    by code_simp
  have e: "''C'' \<in> set (neighbours abc_graph ''A'')"
    by (simp add: neighbours_abc_graph)
  from topologicalSort_order [of None None abc_graph] t acyc
  have "\<forall>u v. v \<in> set (neighbours abc_graph u) \<and> u \<in> set [''A'', ''B'', ''C'']
                 \<and> v \<in> set [''A'', ''B'', ''C'']
              \<longrightarrow> precedes u v [''A'', ''B'', ''C'']"
    by blast
  with e have "precedes ''A'' ''C'' [''A'', ''B'', ''C'']"
    by simp
  with e t show ?thesis
    by blast
qed

text \<open>
  What a search that returns has visited: without the source nodes, the nodes reached from
  a source node along edges into nodes that are neither source nodes nor keys of
  \<^verbatim>\<open>Object.prototype\<close>; with them, the nodes reached from a source node that is no such
  key along edges into nodes that are no such keys.  No node is in the output twice.
\<close>

lemma depthFirstSearch_without_sources:
  assumes "depthFirstSearch ss (Some False) g = (Inr out, g')"
  shows "set out \<inter> (inherited_keys \<union> set (chosen ss g)) = {}"
    and "set out = (fresh_edges g (inherited_keys \<union> set (chosen ss g)))\<^sup>+ `` set (chosen ss g)"
    and "distinct out"
proof -
  let ?S = "set (chosen ss g)"
  let ?M = "inherited_keys \<union> ?S"
  let ?starts = "concat (map (neighbours g) (chosen ss g))"
  from assms obtain visited0 visited where
    m: "marked visited0 = ?M"
    and run: "forEach_DFSVisit ?starts (visited0, []) g = (Inr (visited, out), g)"
    by (rule depthFirstSearch_exclude)
  show "set out \<inter> ?M = {}"
    using run_facts(2) [OF run] by (simp add: m)
  show "distinct out"
    by (rule run_facts(1) [OF run])
  show "set out = (fresh_edges g ?M)\<^sup>+ `` ?S"
  proof (intro equalityI subsetI)
    fix x assume "x \<in> set out"
    from run_facts(5) [OF run this] obtain r where
      r: "r \<in> set ?starts" "r \<notin> ?M" "(r, x) \<in> (fresh_edges g ?M)\<^sup>*" by (auto simp: m)
    from r(1) obtain s where s: "s \<in> ?S" "r \<in> set (neighbours g s)" by auto
    with r(2) have "(s, r) \<in> fresh_edges g ?M" by (simp add: fresh_edges_def)
    from this r(3) have "(s, x) \<in> (fresh_edges g ?M)\<^sup>+" by (rule rtrancl_into_trancl2)
    with s(1) show "x \<in> (fresh_edges g ?M)\<^sup>+ `` ?S" by blast
  next
    fix x assume "x \<in> (fresh_edges g ?M)\<^sup>+ `` ?S"
    then obtain s where s: "s \<in> ?S" and p: "(s, x) \<in> (fresh_edges g ?M)\<^sup>+" by blast
    from p show "x \<in> set out"
    proof (induction rule: trancl_induct)
      case (base y)
      then have "y \<in> set ?starts" "y \<notin> ?M" using s by (auto simp: fresh_edges_def)
      with run_facts(3) [OF run] show ?case by (auto simp: m)
    next
      case (step y z)
      then have "z \<in> set (neighbours g y)" "z \<notin> ?M" by (auto simp: fresh_edges_def)
      with run_facts(4) [OF run step.IH] show ?case by (auto simp: m)
    qed
  qed
qed

lemma depthFirstSearch_with_sources:
  assumes "depthFirstSearch ss inc g = (Inr out, g')" "inc \<noteq> Some False"
  shows "set out = (fresh_edges g inherited_keys)\<^sup>* `` (set (chosen ss g) - inherited_keys)"
    and "distinct out"
proof -
  let ?S = "set (chosen ss g)"
  let ?M = "inherited_keys"
  from assms obtain visited where
    run: "forEach_DFSVisit (chosen ss g) (DAList.empty, []) g = (Inr (visited, out), g)"
    by (rule depthFirstSearch_include)
  have m: "marked DAList.empty = ?M" by (simp add: inherited_keys_def)
  show "distinct out"
    by (rule run_facts(1) [OF run])
  show "set out = (fresh_edges g ?M)\<^sup>* `` (?S - ?M)"
  proof (intro equalityI subsetI)
    fix x assume "x \<in> set out"
    from run_facts(5) [OF run this] show "x \<in> (fresh_edges g ?M)\<^sup>* `` (?S - ?M)"
      by (auto simp: m)
  next
    fix x assume "x \<in> (fresh_edges g ?M)\<^sup>* `` (?S - ?M)"
    then obtain s where s: "s \<in> ?S" "s \<notin> ?M" and p: "(s, x) \<in> (fresh_edges g ?M)\<^sup>*" by blast
    from p show "x \<in> set out"
    proof (induction rule: rtrancl_induct)
      case base
      with run_facts(3) [OF run] s show ?case by (auto simp: m)
    next
      case (step y z)
      then have "z \<in> set (neighbours g y)" "z \<notin> ?M" by (auto simp: fresh_edges_def)
      with run_facts(4) [OF run step.IH] show ?case by (auto simp: m)
    qed
  qed
qed

text \<open>
  C8.  The claim that \<^verbatim>\<open>depthFirstSearch(sourceNodes, false)\<close> outputs the neighbours
  reached from the source nodes that were not visited fails on the graph with the one edge
  from \<^verbatim>\<open>x\<close> to \<^verbatim>\<open>__proto__\<close>: the search from \<^verbatim>\<open>x\<close> returns the empty list,
  because \<^verbatim>\<open>visited["__proto__"]\<close> is \<^verbatim>\<open>Object.prototype\<close> from the start.
\<close>

theorem depthFirstSearch_misses_inherited_name:
  "fst (addEdge ''x'' ''__proto__'' None None (empty_graph :: unit graph)) = Inr ()
   \<and> fst (adjacent ''x'' (after (empty_graph :: unit graph) [addEdge ''x'' ''__proto__'' None None]))
       = Inr (Array [''__proto__''])
   \<and> fst (depthFirstSearch (Some [''x'']) (Some False)
            (after (empty_graph :: unit graph) [addEdge ''x'' ''__proto__'' None None]))
       = Inr []"
  by code_simp

end
